theory Spec2Isabelle
  imports Main "HOL-Library.Sublist" "HOL-Library.Word"
begin

section \<open>Strings of the C++ standard library, as used by \<^verbatim>\<open>subprocess-win32.cc\<close>\<close>

text \<open>
  A \<^verbatim>\<open>std::string\<close> is a list of bytes. The searching members return a position or
  \<^verbatim>\<open>string::npos\<close>; the model returns \<open>Some\<close> position or \<open>None\<close> for \<^verbatim>\<open>npos\<close>.
  \<^verbatim>\<open>npos\<close> is the largest \<^verbatim>\<open>size_t\<close>, so the source's \<^verbatim>\<open>npos + 1\<close> wraps to \<open>0\<close>;
  every place where the source adds to or subtracts from a search result writes that
  wrap-around out.
\<close>

definition newline :: char where
  "newline = CHR 0x0A"

definition complete_token :: string where
  "complete_token = ''__batchitem_complete__''"

definition start_token :: string where
  "start_token = ''__batchitem__''"

text \<open>Position of the first place of \<open>s\<close> where \<open>tok\<close> starts.\<close>

fun find_here :: "string \<Rightarrow> string \<Rightarrow> nat option" where
  "find_here tok [] = (if tok = [] then Some 0 else None)"
| "find_here tok (c # cs) =
     (if prefix tok (c # cs) then Some 0 else map_option Suc (find_here tok cs))"

text \<open>\<^verbatim>\<open>s.find(tok, pos)\<close>: the first position \<open>\<ge> pos\<close> where \<open>tok\<close> occurs.\<close>

definition string_find :: "string \<Rightarrow> string \<Rightarrow> nat \<Rightarrow> nat option" where
  "string_find s tok pos =
     (if length s < pos then None
      else map_option (\<lambda>i. pos + i) (find_here tok (drop pos s)))"

fun index_of :: "char \<Rightarrow> string \<Rightarrow> nat option" where
  "index_of c [] = None"
| "index_of c (d # ds) = (if d = c then Some 0 else map_option Suc (index_of c ds))"

text \<open>\<^verbatim>\<open>s.find_first_of(c, pos)\<close>: the first position \<open>\<ge> pos\<close> holding the byte \<open>c\<close>.\<close>

definition find_first_of :: "string \<Rightarrow> char \<Rightarrow> nat \<Rightarrow> nat option" where
  "find_first_of s c pos =
     (if length s < pos then None
      else map_option (\<lambda>i. pos + i) (index_of c (drop pos s)))"

text \<open>
  \<^verbatim>\<open>s.find_first_of('\n', pos) + 1\<close> as the source computes it in \<^verbatim>\<open>size_t\<close>:
  one past the newline, and \<open>0\<close> when there is none (\<^verbatim>\<open>npos + 1\<close>).
\<close>

definition after_newline :: "string \<Rightarrow> nat \<Rightarrow> nat" where
  "after_newline s pos = (case find_first_of s newline pos of None \<Rightarrow> 0 | Some k \<Rightarrow> k + 1)"

text \<open>\<^verbatim>\<open>s.substr(pos, n)\<close> and the characters \<^verbatim>\<open>append(s, pos, n)\<close> adds, for \<open>pos \<le> length s\<close>.\<close>

definition substr :: "string \<Rightarrow> nat \<Rightarrow> nat \<Rightarrow> string" where
  "substr s pos n = take n (drop pos s)"

subsection \<open>\<^verbatim>\<open>atoi\<close>\<close>

definition isspace :: "char \<Rightarrow> bool" where
  "isspace c = (c \<in> set [CHR '' '', CHR 0x09, CHR 0x0A, CHR 0x0B, CHR 0x0C, CHR 0x0D])"

definition isdigit :: "char \<Rightarrow> bool" where
  "isdigit c = (48 \<le> (of_char c :: nat) \<and> (of_char c :: nat) \<le> 57)"

definition digit_val :: "char \<Rightarrow> int" where
  "digit_val c = int (of_char c) - 48"

fun digits :: "int \<Rightarrow> string \<Rightarrow> int" where
  "digits acc [] = acc"
| "digits acc (c # cs) = (if isdigit c then digits (acc * 10 + digit_val c) cs else acc)"

definition INT_MAX :: int where
  "INT_MAX = 2147483647"

definition INT_MIN :: int where
  "INT_MIN = - 2147483648"

definition clamp_int :: "int \<Rightarrow> int" where
  "clamp_int v = (if v < INT_MIN then INT_MIN else if INT_MAX < v then INT_MAX else v)"

text \<open>
  \<^verbatim>\<open>atoi\<close> reads white space, an optional sign and the decimal digits that follow, and
  stops at the first other byte (the terminating NUL included, so an empty rest gives 0).
  A value outside \<^verbatim>\<open>int\<close> is returned as \<^verbatim>\<open>INT_MAX\<close> or \<^verbatim>\<open>INT_MIN\<close>, as the
  Microsoft runtime this file is built against does.
\<close>

definition atoi :: "string \<Rightarrow> int" where
  "atoi s =
     (case dropWhile isspace s of
        [] \<Rightarrow> 0
      | c # cs \<Rightarrow>
          if c = CHR ''-'' then clamp_int (- digits 0 cs)
          else if c = CHR ''+'' then clamp_int (digits 0 cs)
          else clamp_int (digits 0 (c # cs)))"

section \<open>\<^verbatim>\<open>BatchSubprocess::ParseOutput\<close>\<close>

text \<open>
  \<^verbatim>\<open>&buf_[jobIdStart]\<close> is defined up to \<^verbatim>\<open>jobIdStart = buf_.length()\<close> (the
  terminating NUL). A token that ends the buffer puts \<^verbatim>\<open>jobIdStart\<close> one further:
  the read is outside the string, which the model reports as \<open>ReadPastEnd\<close>.
\<close>

datatype parse_error = ReadPastEnd

type_synonym size_range = "(nat \<times> nat) list"

text \<open>\<^verbatim>\<open>ranges_to_keep.back().second = loc\<close>\<close>

definition set_back_second :: "size_range \<Rightarrow> nat \<Rightarrow> size_range" where
  "set_back_second ranges loc = butlast ranges @ [(fst (last ranges), loc)]"

text \<open>
  The first loop (lines 439 to 449), entered with \<^verbatim>\<open>loc != npos\<close>. It has no bound of
  its own, so it is a partial function: \<open>None\<close> is a loop that never ends.
\<close>

partial_function (option) strip_loop ::
  "string \<Rightarrow> nat \<Rightarrow> size_range \<Rightarrow> int set \<Rightarrow> (parse_error + size_range \<times> int set) option"
where
  "strip_loop buf loc ranges successful_jobs =
     (let ranges1 = set_back_second ranges loc;
          jobIdStart = loc + length complete_token + 1
      in if length buf < jobIdStart then Some (Inl ReadPastEnd)
         else
           let jobId = atoi (drop jobIdStart buf);
               successful1 = insert jobId successful_jobs;
               start_pos = after_newline buf jobIdStart;
               ranges2 = ranges1 @ [(start_pos, length buf)]
           in case string_find buf complete_token start_pos of
                None \<Rightarrow> Some (Inr (ranges2, successful1))
              | Some loc' \<Rightarrow> strip_loop buf loc' ranges2 successful1)"

declare strip_loop.simps [code]

text \<open>
  \<^verbatim>\<open>stripped_buf.append(buf_, it->first, it->second - it->first)\<close>. The difference is
  computed in \<^verbatim>\<open>size_t\<close>: were \<open>second\<close> below \<open>first\<close>, it would wrap to a length
  beyond the end of the buffer, and \<^verbatim>\<open>append\<close> would take all that follows \<open>first\<close>.
\<close>

definition append_range :: "string \<Rightarrow> nat \<times> nat \<Rightarrow> string" where
  "append_range buf it =
     (if fst it \<le> snd it then substr buf (fst it) (snd it - fst it)
      else drop (fst it) buf)"

text \<open>The copy of the kept ranges (lines 451 to 459).\<close>

definition copy_ranges :: "string \<Rightarrow> size_range \<Rightarrow> string" where
  "copy_ranges buf ranges = concat (map (append_range buf) ranges)"

text \<open>
  The second loop (lines 475 to 488), entered with \<^verbatim>\<open>loc != npos\<close>. When there is no
  next token, \<^verbatim>\<open>output_len = npos - start_pos\<close> reaches past the end of the buffer and
  \<^verbatim>\<open>substr\<close> returns everything from \<^verbatim>\<open>start_pos\<close> on.
\<close>

partial_function (option) split_loop ::
  "string \<Rightarrow> nat \<Rightarrow> (int \<rightharpoonup> string) \<Rightarrow> (parse_error + (int \<rightharpoonup> string)) option"
where
  "split_loop buf loc job_output =
     (let jobIdStart = loc + length start_token + 1
      in if length buf < jobIdStart then Some (Inl ReadPastEnd)
         else
           let jobId = atoi (drop jobIdStart buf);
               start_pos = after_newline buf jobIdStart
           in case string_find buf start_token start_pos of
                None \<Rightarrow> Some (Inr (job_output(jobId \<mapsto> drop start_pos buf)))
              | Some next_loc \<Rightarrow>
                  split_loop buf next_loc
                    (job_output(jobId \<mapsto> substr buf start_pos (next_loc - start_pos))))"

declare split_loop.simps [code]

record parse_result =
  successful_jobs :: "int set"
  job_output :: "int \<rightharpoonup> string"
  new_buf :: string

text \<open>
  \<^verbatim>\<open>ParseOutput(successful_jobs, job_output)\<close> on a batch whose \<^verbatim>\<open>buf_\<close> is \<open>buf\<close>.
  The two containers are the caller's; the result holds them and \<^verbatim>\<open>buf_\<close> as the call
  leaves them.
\<close>

definition strip_pass :: "string \<Rightarrow> int set \<Rightarrow> (parse_error + size_range \<times> int set) option" where
  "strip_pass buf successful =
     (case string_find buf complete_token 0 of
        None \<Rightarrow> Some (Inr ([(0, length buf)], successful))
      | Some loc \<Rightarrow> strip_loop buf loc [(0, length buf)] successful)"

definition split_pass ::
  "string \<Rightarrow> int set \<Rightarrow> (int \<rightharpoonup> string) \<Rightarrow> (parse_error + parse_result) option"
where
  "split_pass stripped_buf successful job_out =
     (case string_find stripped_buf start_token 0 of
        None \<Rightarrow>
          Some (Inr \<lparr>successful_jobs = successful, job_output = job_out,
                     new_buf = stripped_buf\<rparr>)
      | Some loc \<Rightarrow>
          (case split_loop stripped_buf loc job_out of
             None \<Rightarrow> None
           | Some (Inl e) \<Rightarrow> Some (Inl e)
           | Some (Inr job_out1) \<Rightarrow>
               Some (Inr \<lparr>successful_jobs = successful, job_output = job_out1,
                          new_buf = ''''\<rparr>)))"

definition ParseOutput ::
  "string \<Rightarrow> int set \<Rightarrow> (int \<rightharpoonup> string) \<Rightarrow> (parse_error + parse_result) option"
where
  "ParseOutput buf successful job_out =
     (case strip_pass buf successful of
        None \<Rightarrow> None
      | Some (Inl e) \<Rightarrow> Some (Inl e)
      | Some (Inr (ranges_to_keep, successful1)) \<Rightarrow>
          split_pass (copy_ranges buf ranges_to_keep) successful1 job_out)"

text \<open>What a caller sees of a call of \<^verbatim>\<open>ParseOutput\<close> that returned.\<close>

definition parsed_successful :: "(parse_error + parse_result) option \<Rightarrow> int set option" where
  "parsed_successful res = (case res of Some (Inr r) \<Rightarrow> Some (successful_jobs r) | _ \<Rightarrow> None)"

definition parsed_output ::
  "(parse_error + parse_result) option \<Rightarrow> int \<Rightarrow> string option option"
where
  "parsed_output res k = (case res of Some (Inr r) \<Rightarrow> Some (job_output r k) | _ \<Rightarrow> None)"

definition parsed_buf :: "(parse_error + parse_result) option \<Rightarrow> string option" where
  "parsed_buf res = (case res of Some (Inr r) \<Rightarrow> Some (new_buf r) | _ \<Rightarrow> None)"

text \<open>The stream of the three jobs \<^verbatim>\<open>echo A\<close>, \<^verbatim>\<open>false\<close>, \<^verbatim>\<open>echo C\<close>.\<close>

definition framing_stream :: string where
  "framing_stream =
     ''__batchitem__=0\<newline>A\<newline>__batchitem_complete__=0\<newline>__batchitem__=1\<newline>__batchitem__=2\<newline>C\<newline>__batchitem_complete__=2\<newline>''"

section \<open>\<^verbatim>\<open>Subprocess\<close>\<close>

text \<open>
  A \<^verbatim>\<open>HANDLE\<close> member is \<open>None\<close> when it is \<^verbatim>\<open>NULL\<close>. A \<^verbatim>\<open>DWORD\<close> is a 32-bit
  word. What the operating system answers to a call is an argument of the function that
  makes the call. A call of \<^verbatim>\<open>Win32Fatal\<close> or \<^verbatim>\<open>Fatal\<close> ends the program: the function
  returns \<open>Inl\<close> and no state. The members of the classes keep their names, less the
  underscore that ends them in the source (\<^verbatim>\<open>buf_\<close> is \<open>buf\<close>).
\<close>

type_synonym HANDLE = nat
type_synonym DWORD = "32 word"
type_synonym ptr = nat

definition ERROR_FILE_NOT_FOUND :: DWORD where
  "ERROR_FILE_NOT_FOUND = 2"

definition ERROR_BROKEN_PIPE :: DWORD where
  "ERROR_BROKEN_PIPE = 109"

definition ERROR_IO_PENDING :: DWORD where
  "ERROR_IO_PENDING = 997"

definition CONTROL_C_EXIT :: DWORD where
  "CONTROL_C_EXIT = 0xC000013A"

definition CTRL_C_EVENT :: DWORD where
  "CTRL_C_EVENT = 0"

definition CTRL_BREAK_EVENT :: DWORD where
  "CTRL_BREAK_EVENT = 1"

datatype ExitStatus = ExitSuccess | ExitFailure | ExitInterrupted

datatype abort =
    Win32Fatal string
  | Fatal string
  | UndefinedRead parse_error
  | DanglingPointer ptr
  | NotFresh ptr

record Subprocess =
  child :: "HANDLE option"
  is_reading :: bool
  pipe :: "HANDLE option"
  buf :: string
  use_override_status :: bool
  override_status :: ExitStatus

text \<open>\<^verbatim>\<open>Subprocess::Subprocess()\<close>\<close>

definition Subprocess_new :: Subprocess where
  "Subprocess_new =
     \<lparr>child = None, is_reading = False, pipe = None, buf = [],
      use_override_status = False, override_status = ExitFailure\<rparr>"

text \<open>
  The answers to the calls of \<^verbatim>\<open>Start\<close>, in the order of the calls:
  \<^verbatim>\<open>CreateNamedPipeA\<close> (\<open>None\<close> is \<^verbatim>\<open>INVALID_HANDLE_VALUE\<close>),
  \<^verbatim>\<open>CreateIoCompletionPort\<close>, \<^verbatim>\<open>ConnectNamedPipe\<close> (true when it returned nonzero or
  the last error is \<^verbatim>\<open>ERROR_IO_PENDING\<close>), \<^verbatim>\<open>DuplicateHandle\<close> and the handle it
  stores, \<^verbatim>\<open>CreateFile("NUL")\<close>, \<^verbatim>\<open>CreateProcessA\<close>.
\<close>

datatype create_process = ProcessCreated HANDLE | CreateProcessFailed DWORD

record start_os =
  CreateNamedPipe :: "HANDLE option"
  RegisterPipe_ok :: bool
  ConnectNamedPipe_ok :: bool
  DuplicateHandle_ok :: bool
  output_write_child :: "HANDLE option"
  OpenNul_ok :: bool
  CreateProcess :: create_process

definition SetupPipe :: "Subprocess \<Rightarrow> start_os \<Rightarrow> abort + HANDLE option \<times> Subprocess" where
  "SetupPipe p os =
     (case CreateNamedPipe os of
        None \<Rightarrow> Inl (Win32Fatal ''CreateNamedPipe'')
      | Some h \<Rightarrow>
          if \<not> RegisterPipe_ok os then Inl (Win32Fatal ''CreateIoCompletionPort'')
          else if \<not> ConnectNamedPipe_ok os then Inl (Win32Fatal ''ConnectNamedPipe'')
          else if \<not> DuplicateHandle_ok os then Inl (Win32Fatal ''DuplicateHandle'')
          else Inr (output_write_child os, p\<lparr>pipe := Some h\<rparr>))"

definition not_found_message :: string where
  "not_found_message =
     ''CreateProcess failed: The system cannot find the file specified.\<newline>''"

text \<open>
  \<^verbatim>\<open>Subprocess::Start\<close>. The command goes to \<^verbatim>\<open>CreateProcessA\<close> as it is; what becomes
  of it is the answer \<open>CreateProcess os\<close>.
\<close>

definition Start :: "Subprocess \<Rightarrow> start_os \<Rightarrow> string \<Rightarrow> abort + bool \<times> Subprocess" where
  "Start p os command =
     (case SetupPipe p os of
        Inl e \<Rightarrow> Inl e
      | Inr (child_pipe, p1) \<Rightarrow>
          if \<not> OpenNul_ok os then Inl (Fatal ''couldn't open nul'')
          else
            (case CreateProcess os of
               CreateProcessFailed error \<Rightarrow>
                 if error = ERROR_FILE_NOT_FOUND
                 then Inr (True, p1\<lparr>pipe := None, buf := not_found_message\<rparr>)
                 else Inl (Win32Fatal ''CreateProcess'')
             | ProcessCreated hProcess \<Rightarrow> Inr (True, p1\<lparr>child := Some hProcess\<rparr>)))"

text \<open>
  The answers to the calls of \<^verbatim>\<open>OnPipeReady\<close>: \<^verbatim>\<open>GetOverlappedResult\<close> gives the
  bytes that the finished read left in \<^verbatim>\<open>overlapped_buf_\<close>, or fails with an error code;
  \<^verbatim>\<open>ReadFile\<close> returns nonzero or fails with an error code.
\<close>

datatype overlapped_result = Transferred string | OverlappedFailed DWORD

datatype read_file = ReadStarted | ReadFailed DWORD

record pipe_os =
  GetOverlappedResult :: overlapped_result
  ReadFile :: read_file

text \<open>\<^verbatim>\<open>if (is_reading_ && bytes) buf_.append(overlapped_buf_, bytes)\<close>\<close>

definition append_read :: "Subprocess \<Rightarrow> string \<Rightarrow> Subprocess" where
  "append_read p bytes = (if is_reading p \<and> bytes \<noteq> [] then p\<lparr>buf := buf p @ bytes\<rparr> else p)"

definition OnPipeReady :: "Subprocess \<Rightarrow> pipe_os \<Rightarrow> abort + Subprocess" where
  "OnPipeReady p os =
     (case GetOverlappedResult os of
        OverlappedFailed error \<Rightarrow>
          if error = ERROR_BROKEN_PIPE then Inr (p\<lparr>pipe := None\<rparr>)
          else Inl (Win32Fatal ''GetOverlappedResult'')
      | Transferred bytes \<Rightarrow>
          let p2 = (append_read p bytes)\<lparr>is_reading := True\<rparr>
          in (case ReadFile os of
                ReadStarted \<Rightarrow> Inr p2
              | ReadFailed error \<Rightarrow>
                  if error = ERROR_BROKEN_PIPE then Inr (p2\<lparr>pipe := None\<rparr>)
                  else if error \<noteq> ERROR_IO_PENDING then Inl (Win32Fatal ''ReadFile'')
                  else Inr p2))"

text \<open>
  \<^verbatim>\<open>Subprocess::Finish\<close>; \<open>exit_code\<close> is what \<^verbatim>\<open>GetExitCodeProcess\<close> leaves in the
  variable of that name once the wait has returned.
\<close>

definition Finish :: "Subprocess \<Rightarrow> DWORD \<Rightarrow> ExitStatus \<times> Subprocess" where
  "Finish p exit_code =
     (if use_override_status p then (override_status p, p)
      else if child p = None then (ExitFailure, p)
      else (if exit_code = 0 then ExitSuccess
            else if exit_code = CONTROL_C_EXIT then ExitInterrupted
            else ExitFailure,
            p\<lparr>child := None\<rparr>))"

definition Done :: "Subprocess \<Rightarrow> bool" where
  "Done p = (pipe p = None)"

definition GetOutput :: "Subprocess \<Rightarrow> string" where
  "GetOutput p = buf p"

section \<open>\<^verbatim>\<open>BatchSubprocess\<close>\<close>

text \<open>
  \<^verbatim>\<open>_snprintf(.., "%d", i)\<close> with \<^verbatim>\<open>uint32_t i\<close>: the 32 bits of \<open>i\<close> are printed as
  a signed decimal number. The same conversion happens where a \<^verbatim>\<open>uint32_t\<close> index is
  passed for an \<^verbatim>\<open>int\<close> key. The loops over the pending jobs and over the children
  count in \<^verbatim>\<open>uint32_t\<close>; the model counts in \<open>nat\<close>, which is the same for every
  vector of fewer than \<open>2^32\<close> elements.
\<close>

definition digit_char :: "nat \<Rightarrow> char" where
  "digit_char n = char_of (48 + n)"

fun decimal :: "nat \<Rightarrow> string" where
  "decimal n = (if n < 10 then [digit_char n] else decimal (n div 10) @ [digit_char (n mod 10)])"

declare decimal.simps [simp del]

definition int_of_uint32 :: "nat \<Rightarrow> int" where
  "int_of_uint32 i = sint (word_of_nat i :: 32 word)"

definition printf_d :: "int \<Rightarrow> string" where
  "printf_d v = (if v < 0 then CHR ''-'' # decimal (nat (- v)) else decimal (nat v))"

definition batch_id :: "nat \<Rightarrow> string" where
  "batch_id i = ''echo __batchitem__='' @ printf_d (int_of_uint32 i) @ ''\<newline>''"

definition batch_complete :: "nat \<Rightarrow> string" where
  "batch_complete i = '' && echo __batchitem_complete__='' @ printf_d (int_of_uint32 i) @ ''\<newline>''"

text \<open>
  The members that \<^verbatim>\<open>BatchSubprocess\<close> adds to \<^verbatim>\<open>Subprocess\<close>: the script's path and
  the children that \<^verbatim>\<open>AppendChild\<close> collects and \<^verbatim>\<open>GetChildren\<close> returns.
\<close>

record BatchMembers =
  script_filename :: string
  children :: "ptr list"

text \<open>
  The loop of the constructor (lines 388 to 406), from index \<open>i\<close> on, with the script and
  the children collected so far.
\<close>

fun batch_loop :: "nat \<Rightarrow> (ptr \<times> string) list \<Rightarrow> string \<times> ptr list \<Rightarrow> string \<times> ptr list" where
  "batch_loop i [] acc = acc"
| "batch_loop i (sp # rest) (script_contents, kids) =
     batch_loop (i + 1) rest
       (script_contents @ (batch_id i @ snd sp @ batch_complete i), kids @ [fst sp])"

text \<open>
  \<^verbatim>\<open>BatchSubprocess::BatchSubprocess\<close>; \<open>temp\<close> is what the static \<^verbatim>\<open>GetTempFileName()\<close>
  returns (empty when it fails). The result is the new object and the contents it hands
  to \<^verbatim>\<open>WriteFile\<close>.
\<close>

definition BatchSubprocess_new ::
  "string \<Rightarrow> (ptr \<times> string) list \<Rightarrow> abort + Subprocess \<times> BatchMembers \<times> string"
where
  "BatchSubprocess_new temp batch_procs =
     (if temp = [] then Inl (Win32Fatal ''GetTempFileName'')
      else
        let (script_contents, kids) = batch_loop 0 batch_procs ([], [])
        in Inr (Subprocess_new, \<lparr>script_filename = temp, children = kids\<rparr>, script_contents))"

text \<open>The script as section 4.3 of the specification words it.\<close>

definition spec_job_lines :: "nat \<Rightarrow> string \<Rightarrow> string" where
  "spec_job_lines i command =
     ''echo __batchitem__='' @ decimal i @ ''\<newline>'' @
     command @ '' && echo __batchitem_complete__='' @ decimal i @ ''\<newline>''"

fun spec_script_from :: "nat \<Rightarrow> string list \<Rightarrow> string" where
  "spec_script_from i [] = []"
| "spec_script_from i (command # rest) = spec_job_lines i command @ spec_script_from (i + 1) rest"

section \<open>\<^verbatim>\<open>SubprocessSet\<close>\<close>

text \<open>
  The members of the set, the objects on the heap that its pointers refer to (the
  \<^verbatim>\<open>Subprocess\<close> part of every live object, and the further members of those that are a
  \<^verbatim>\<open>BatchSubprocess\<close>), and the files that \<^verbatim>\<open>RealDiskInterface\<close> writes and removes.
  \<^verbatim>\<open>batch_process_\<close> has no initialiser in the constructor; the model starts it at
  \<^verbatim>\<open>NULL\<close>.
\<close>

record system =
  batch_mode :: bool
  batch_command :: string
  running :: "ptr list"
  finished :: "ptr list"
  procs_to_batch :: "(ptr \<times> string) list"
  batch_process :: "ptr option"
  objects :: "ptr \<rightharpoonup> Subprocess"
  batch_objects :: "ptr \<rightharpoonup> BatchMembers"
  files :: "string \<rightharpoonup> string"

definition SubprocessSet_new :: system where
  "SubprocessSet_new =
     \<lparr>batch_mode = False, batch_command = [], running = [], finished = [],
      procs_to_batch = [], batch_process = None, objects = Map.empty,
      batch_objects = Map.empty, files = Map.empty\<rparr>"

text \<open>
  \<^verbatim>\<open>SetBatchMode\<close>; \<open>searchRet\<close> is the answer of \<^verbatim>\<open>SearchPath\<close> and \<open>userName\<close> the
  value of the variable \<^verbatim>\<open>USERNAME\<close>, if it is set.
\<close>

definition SetBatchMode :: "system \<Rightarrow> bool \<Rightarrow> DWORD \<Rightarrow> string option \<Rightarrow> system" where
  "SetBatchMode s b searchRet userName =
     (if b then
        (if searchRet = 0 then s\<lparr>batch_mode := False\<rparr>
         else s\<lparr>batch_mode := True,
                batch_command := ''dbsrun dbsbuild -k -p '' @
                  (case userName of None \<Rightarrow> ''Unknown'' | Some u \<Rightarrow> u) @ '' -s ''\<rparr>)
      else s\<lparr>batch_mode := False\<rparr>)"

text \<open>What \<^verbatim>\<open>GetQueuedCompletionStatus\<close> answers.\<close>

record completion =
  gqcs_ok :: bool
  gqcs_error :: DWORD
  completion_key :: "ptr option"

text \<open>
  \<^verbatim>\<open>NotifyInterrupted\<close>: whether the handler took the signal, and the packet it
  posted, if any.
\<close>

definition NotifyInterrupted :: "DWORD \<Rightarrow> bool \<Rightarrow> abort + bool \<times> completion option" where
  "NotifyInterrupted dwCtrlType post_ok =
     (if dwCtrlType = CTRL_C_EVENT \<or> dwCtrlType = CTRL_BREAK_EVENT then
        (if \<not> post_ok then Inl (Win32Fatal ''PostQueuedCompletionStatus'')
         else Inr (True, Some \<lparr>gqcs_ok = True, gqcs_error = 0, completion_key = None\<rparr>))
      else Inr (False, None))"

text \<open>
  \<^verbatim>\<open>SubprocessSet::Add\<close>; \<open>subprocess\<close> is the address that \<^verbatim>\<open>new Subprocess\<close> returns.
\<close>

definition Add :: "system \<Rightarrow> ptr \<Rightarrow> start_os \<Rightarrow> string \<Rightarrow> abort + ptr option \<times> system" where
  "Add s subprocess os command =
     (if batch_mode s then
        Inr (Some subprocess,
             s\<lparr>objects := (objects s)(subprocess \<mapsto> Subprocess_new),
               procs_to_batch := procs_to_batch s @ [(subprocess, command)]\<rparr>)
      else
        (case Start Subprocess_new os command of
           Inl e \<Rightarrow> Inl e
         | Inr (started, p) \<Rightarrow>
             if \<not> started then Inr (None, s\<lparr>objects := (objects s)(subprocess := None)\<rparr>)
             else if child p \<noteq> None then
               Inr (Some subprocess,
                    s\<lparr>objects := (objects s)(subprocess \<mapsto> p),
                      running := running s @ [subprocess]\<rparr>)
             else
               Inr (Some subprocess,
                    s\<lparr>objects := (objects s)(subprocess \<mapsto> p),
                      finished := finished s @ [subprocess]\<rparr>)))"

text \<open>
  The answers to the calls of one \<^verbatim>\<open>DoWork\<close>: the address of the new
  \<^verbatim>\<open>BatchSubprocess\<close>, its temporary file name, the answers to its \<^verbatim>\<open>Start\<close>, the
  completion packet, the answers to \<^verbatim>\<open>OnPipeReady\<close>, and the exit code of the batch.
\<close>

record dowork_os =
  new_BatchSubprocess :: ptr
  GetTempFileName :: string
  batch_start :: start_os
  GetQueuedCompletionStatus :: completion
  pipe_ready :: pipe_os
  GetExitCodeProcess :: DWORD

text \<open>
  \<^verbatim>\<open>delete batch_process_\<close>: the destructor removes the script, and the object is gone.
\<close>

definition delete_BatchSubprocess :: "system \<Rightarrow> ptr \<Rightarrow> system" where
  "delete_BatchSubprocess s b =
     s\<lparr>files := (case batch_objects s b of
                   None \<Rightarrow> files s
                 | Some members \<Rightarrow> (files s)(script_filename members := None)),
       objects := (objects s)(b := None),
       batch_objects := (batch_objects s)(b := None)\<rparr>"

text \<open>
  Lines 268 to 280 of \<^verbatim>\<open>DoWork\<close>. The first component is the value of an early
  \<^verbatim>\<open>return\<close>, if one is taken.
\<close>

definition start_pending_batch :: "system \<Rightarrow> dowork_os \<Rightarrow> abort + bool option \<times> system" where
  "start_pending_batch s os =
     (if procs_to_batch s = [] then Inr (None, s)
      else
        (case BatchSubprocess_new (GetTempFileName os) (procs_to_batch s) of
           Inl e \<Rightarrow> Inl e
         | Inr (obj, members, script_contents) \<Rightarrow>
             let b = new_BatchSubprocess os;
                 full_command = batch_command s @ script_filename members;
                 s1 = s\<lparr>batch_process := Some b,
                        objects := (objects s)(b \<mapsto> obj),
                        batch_objects := (batch_objects s)(b \<mapsto> members),
                        files := (files s)(script_filename members \<mapsto> script_contents)\<rparr>
             in (case Start obj (batch_start os) full_command of
                   Inl e \<Rightarrow> Inl e
                 | Inr (started, obj1) \<Rightarrow>
                     if \<not> started
                     then Inr (Some True, (delete_BatchSubprocess s1 b)\<lparr>batch_process := None\<rparr>)
                     else
                       let s2 = s1\<lparr>objects := (objects s1)(b \<mapsto> obj1)\<rparr>;
                           s3 = (if child obj1 \<noteq> None then s2\<lparr>running := running s2 @ [b]\<rparr>
                                 else s2)
                       in Inr (None, s3\<lparr>procs_to_batch := []\<rparr>))))"

text \<open>
  \<^verbatim>\<open>job_output[child]\<close>: the entry, or the empty string that \<^verbatim>\<open>operator[]\<close> inserts
  for a key that has none.
\<close>

definition map_index :: "(int \<rightharpoonup> string) \<Rightarrow> int \<Rightarrow> string" where
  "map_index m k = (case m k of None \<Rightarrow> [] | Some v \<Rightarrow> v)"

text \<open>The loop over the children (lines 305 to 315), from index \<open>child_index\<close> on.\<close>

fun redistribute ::
  "ExitStatus \<Rightarrow> int set \<Rightarrow> (int \<rightharpoonup> string) \<Rightarrow> nat \<Rightarrow> ptr list \<Rightarrow> system \<Rightarrow> abort + system"
where
  "redistribute err successful out child_index [] s = Inr s"
| "redistribute err successful out child_index (c # cs) s =
     (case objects s c of
        None \<Rightarrow> Inl (DanglingPointer c)
      | Some obj \<Rightarrow>
          let k = int_of_uint32 child_index;
              obj1 = obj\<lparr>use_override_status := True,
                         override_status := (if k \<in> successful then ExitSuccess else err),
                         buf := map_index out k\<rparr>
          in redistribute err successful out (child_index + 1) cs
               (s\<lparr>objects := (objects s)(c \<mapsto> obj1), finished := finished s @ [c]\<rparr>))"

text \<open>Lines 300 to 323: the batch process \<open>b\<close>, whose object is \<open>p\<close>, is done.\<close>

definition finish_batch ::
  "system \<Rightarrow> ptr \<Rightarrow> Subprocess \<Rightarrow> dowork_os \<Rightarrow> (abort + bool \<times> system) option"
where
  "finish_batch s b p os =
     (let (err, p1) = Finish p (GetExitCodeProcess os)
      in (case ParseOutput (buf p1) {} Map.empty of
            None \<Rightarrow> None
          | Some (Inl e) \<Rightarrow> Some (Inl (UndefinedRead e))
          | Some (Inr r) \<Rightarrow>
              (case batch_objects s b of
                 None \<Rightarrow> Some (Inl (DanglingPointer b))
               | Some members \<Rightarrow>
                   let s1 = s\<lparr>objects := (objects s)(b \<mapsto> p1\<lparr>buf := new_buf r\<rparr>)\<rparr>
                   in (case redistribute err (successful_jobs r) (job_output r) 0
                              (children members) s1 of
                         Inl e \<Rightarrow> Some (Inl e)
                       | Inr s2 \<Rightarrow>
                           let s3 = s2\<lparr>running := removeAll b (running s2)\<rparr>
                           in Some (Inr (False,
                                (delete_BatchSubprocess s3 b)\<lparr>batch_process := None\<rparr>))))))"

text \<open>Lines 281 to 334 of \<^verbatim>\<open>DoWork\<close>: the wait and what follows it.\<close>

definition handle_completion :: "system \<Rightarrow> dowork_os \<Rightarrow> (abort + bool \<times> system) option" where
  "handle_completion s os =
     (let ev = GetQueuedCompletionStatus os
      in if \<not> gqcs_ok ev \<and> gqcs_error ev \<noteq> ERROR_BROKEN_PIPE
         then Some (Inl (Win32Fatal ''GetQueuedCompletionStatus''))
         else
           (case completion_key ev of
              None \<Rightarrow> Some (Inr (True, s))
            | Some subproc \<Rightarrow>
                (case objects s subproc of
                   None \<Rightarrow> Some (Inl (DanglingPointer subproc))
                 | Some p \<Rightarrow>
                     (case OnPipeReady p (pipe_ready os) of
                        Inl e \<Rightarrow> Some (Inl e)
                      | Inr p1 \<Rightarrow>
                          let s1 = s\<lparr>objects := (objects s)(subproc \<mapsto> p1)\<rparr>
                          in if Done p1 then
                               (if batch_process s1 = Some subproc
                                then finish_batch s1 subproc p1 os
                                else if subproc \<in> set (running s1)
                                then Some (Inr (False,
                                       s1\<lparr>finished := finished s1 @ [subproc],
                                          running := removeAll subproc (running s1)\<rparr>))
                                else Some (Inr (False, s1)))
                             else Some (Inr (False, s1))))))"

text \<open>
  \<^verbatim>\<open>SubprocessSet::DoWork\<close>. \<open>None\<close> is a call that never returns, \<open>Inl\<close> one that
  ends the program, and \<open>Inr (r, s')\<close> one that returns \<open>r\<close> and leaves the state \<open>s'\<close>.
\<close>

definition DoWork :: "system \<Rightarrow> dowork_os \<Rightarrow> (abort + bool \<times> system) option" where
  "DoWork s os =
     (case start_pending_batch s os of
        Inl e \<Rightarrow> Some (Inl e)
      | Inr (Some r, s1) \<Rightarrow> Some (Inr (r, s1))
      | Inr (None, s1) \<Rightarrow> handle_completion s1 os)"

definition NextFinished :: "system \<Rightarrow> ptr option \<times> system" where
  "NextFinished s =
     (case finished s of
        [] \<Rightarrow> (None, s)
      | subproc # rest \<Rightarrow> (Some subproc, s\<lparr>finished := rest\<rparr>))"

section \<open>Sequences of calls\<close>

text \<open>
  The scheduler calls \<^verbatim>\<open>Add\<close>, \<^verbatim>\<open>DoWork\<close> and \<^verbatim>\<open>NextFinished\<close> in some order. A run
  keeps, beside the state, the handles that \<^verbatim>\<open>Add\<close> has returned and those that
  \<^verbatim>\<open>NextFinished\<close> has returned. \<^verbatim>\<open>new\<close> never returns the address of a live object:
  a sequence that says it does is not a run of the program and ends in \<open>NotFresh\<close>.
\<close>

datatype call =
    CallAdd ptr start_os string
  | CallDoWork dowork_os
  | CallNextFinished

record observed =
  now :: system
  handed_out :: "ptr list"
  retrieved :: "ptr list"

definition add_handle :: "ptr option \<Rightarrow> ptr list \<Rightarrow> ptr list" where
  "add_handle r hs = (case r of None \<Rightarrow> hs | Some h \<Rightarrow> hs @ [h])"

fun step :: "observed \<Rightarrow> call \<Rightarrow> (abort + observed) option" where
  "step t (CallAdd a os command) =
     (if objects (now t) a \<noteq> None then Some (Inl (NotFresh a))
      else
        (case Add (now t) a os command of
           Inl e \<Rightarrow> Some (Inl e)
         | Inr (r, s') \<Rightarrow> Some (Inr (t\<lparr>now := s', handed_out := add_handle r (handed_out t)\<rparr>))))"
| "step t (CallDoWork os) =
     (if procs_to_batch (now t) \<noteq> [] \<and> objects (now t) (new_BatchSubprocess os) \<noteq> None
      then Some (Inl (NotFresh (new_BatchSubprocess os)))
      else
        (case DoWork (now t) os of
           None \<Rightarrow> None
         | Some (Inl e) \<Rightarrow> Some (Inl e)
         | Some (Inr (r, s')) \<Rightarrow> Some (Inr (t\<lparr>now := s'\<rparr>))))"
| "step t CallNextFinished =
     (case NextFinished (now t) of
        (r, s') \<Rightarrow> Some (Inr (t\<lparr>now := s', retrieved := add_handle r (retrieved t)\<rparr>)))"

fun run :: "observed \<Rightarrow> call list \<Rightarrow> (abort + observed) option" where
  "run t [] = Some (Inr t)"
| "run t (c # cs) =
     (case step t c of
        None \<Rightarrow> None
      | Some (Inl e) \<Rightarrow> Some (Inl e)
      | Some (Inr t') \<Rightarrow> run t' cs)"

text \<open>A new set, after the one call of \<^verbatim>\<open>SetBatchMode\<close> that decides its mode.\<close>

definition initial :: "bool \<Rightarrow> DWORD \<Rightarrow> string option \<Rightarrow> observed" where
  "initial b searchRet userName =
     \<lparr>now = SetBatchMode SubprocessSet_new b searchRet userName,
      handed_out = [], retrieved = []\<rparr>"

text \<open>The children recorded in the active batch, which await their results.\<close>

definition active_children :: "system \<Rightarrow> ptr list" where
  "active_children s =
     (case batch_process s of
        None \<Rightarrow> []
      | Some b \<Rightarrow> (case batch_objects s b of None \<Rightarrow> [] | Some members \<Rightarrow> children members))"

text \<open>The handles of the jobs in the pending list.\<close>

definition pending_handles :: "system \<Rightarrow> ptr list" where
  "pending_handles s = map fst (procs_to_batch s)"

definition tracked :: "system \<Rightarrow> ptr list" where
  "tracked s = running s @ finished s @ pending_handles s @ active_children s"

text \<open>How often a handle occurs in the collections.\<close>

definition occurrences :: "system \<Rightarrow> ptr \<Rightarrow> nat" where
  "occurrences s h = count_list (tracked s) h"

text \<open>What a run that returned shows.\<close>

definition state_after :: "(abort + observed) option \<Rightarrow> observed option" where
  "state_after res = (case res of Some (Inr t) \<Rightarrow> Some t | _ \<Rightarrow> None)"

definition handed_out_after :: "(abort + observed) option \<Rightarrow> ptr list option" where
  "handed_out_after res = map_option handed_out (state_after res)"

definition retrieved_after :: "(abort + observed) option \<Rightarrow> ptr list option" where
  "retrieved_after res = map_option retrieved (state_after res)"

definition occurrences_after :: "(abort + observed) option \<Rightarrow> ptr \<Rightarrow> nat option" where
  "occurrences_after res h = map_option (\<lambda>t. occurrences (now t) h) (state_after res)"

definition running_after :: "(abort + observed) option \<Rightarrow> ptr list option" where
  "running_after res = map_option (\<lambda>t. running (now t)) (state_after res)"

definition finished_after :: "(abort + observed) option \<Rightarrow> ptr list option" where
  "finished_after res = map_option (\<lambda>t. finished (now t)) (state_after res)"

definition pending_after :: "(abort + observed) option \<Rightarrow> ptr list option" where
  "pending_after res = map_option (\<lambda>t. pending_handles (now t)) (state_after res)"

text \<open>
  The invariant of a run: no handle is tracked twice; every tracked, handed out or
  retrieved handle is a live object; the active batch is a live batch object that is
  neither finished, pending, a child of itself nor a handle the scheduler has got.
\<close>

definition batch_apart :: "observed \<Rightarrow> bool" where
  "batch_apart t =
     (case batch_process (now t) of
        None \<Rightarrow> True
      | Some b \<Rightarrow>
          objects (now t) b \<noteq> None \<and> batch_objects (now t) b \<noteq> None \<and>
          b \<notin> set (finished (now t)) \<and> b \<notin> set (pending_handles (now t)) \<and>
          b \<notin> set (active_children (now t)) \<and> b \<notin> set (handed_out t) \<and>
          b \<notin> set (retrieved t))"

definition consistent :: "observed \<Rightarrow> bool" where
  "consistent t =
     (distinct (tracked (now t)) \<and>
      (\<forall>p \<in> set (tracked (now t)) \<union> set (handed_out t) \<union> set (retrieved t).
         objects (now t) p \<noteq> None) \<and>
      batch_apart t)"

text \<open>The active batch itself, which is tracked when it runs but is no job handle.\<close>

definition active_batch :: "system \<Rightarrow> ptr set" where
  "active_batch s = (case batch_process s of None \<Rightarrow> {} | Some b \<Rightarrow> {b})"

text \<open>The handles not yet retrieved are the tracked ones, the active batch apart.\<close>

definition accounted :: "observed \<Rightarrow> bool" where
  "accounted t =
     (set (handed_out t) - set (retrieved t) = set (tracked (now t)) - active_batch (now t))"

text \<open>
  A sequence of calls in which no \<^verbatim>\<open>DoWork\<close> starts a batch while an earlier batch is
  still the active one.
\<close>

definition starts_second_batch :: "observed \<Rightarrow> call \<Rightarrow> bool" where
  "starts_second_batch t c =
     (case c of
        CallDoWork os \<Rightarrow> procs_to_batch (now t) \<noteq> [] \<and> batch_process (now t) \<noteq> None
      | _ \<Rightarrow> False)"

fun single_batch :: "observed \<Rightarrow> call list \<Rightarrow> bool" where
  "single_batch t [] = True"
| "single_batch t (c # cs) =
     (\<not> starts_second_batch t c \<and>
      (case step t c of Some (Inr t') \<Rightarrow> single_batch t' cs | _ \<Rightarrow> True))"

text \<open>The answers of an operating system that does not find the executable.\<close>

definition not_found_os :: start_os where
  "not_found_os =
     \<lparr>CreateNamedPipe = Some 7, RegisterPipe_ok = True, ConnectNamedPipe_ok = True,
      DuplicateHandle_ok = True, output_write_child = Some 8, OpenNul_ok = True,
      CreateProcess = CreateProcessFailed ERROR_FILE_NOT_FOUND\<rparr>"

text \<open>The answers of one that starts the process, with process handle 9.\<close>

definition started_os :: start_os where
  "started_os =
     \<lparr>CreateNamedPipe = Some 7, RegisterPipe_ok = True, ConnectNamedPipe_ok = True,
      DuplicateHandle_ok = True, output_write_child = Some 8, OpenNul_ok = True,
      CreateProcess = ProcessCreated 9\<rparr>"

text \<open>
  The answers to a \<^verbatim>\<open>DoWork\<close> whose batch is not found and whose wait returns the
  packet of \<^verbatim>\<open>NotifyInterrupted\<close>.
\<close>

definition interrupted_os :: dowork_os where
  "interrupted_os =
     \<lparr>new_BatchSubprocess = 2, GetTempFileName = ''script.tmp'', batch_start = not_found_os,
      GetQueuedCompletionStatus = \<lparr>gqcs_ok = True, gqcs_error = 0, completion_key = None\<rparr>,
      pipe_ready = \<lparr>GetOverlappedResult = OverlappedFailed ERROR_BROKEN_PIPE,
                    ReadFile = ReadStarted\<rparr>,
      GetExitCodeProcess = 0\<rparr>"

text \<open>
  The answers to a \<^verbatim>\<open>DoWork\<close> that starts the batch at address 2 and then gets the
  packet of its connected pipe, with nothing read yet.
\<close>

definition batch_started_os :: dowork_os where
  "batch_started_os =
     \<lparr>new_BatchSubprocess = 2, GetTempFileName = ''script.tmp'', batch_start = started_os,
      GetQueuedCompletionStatus = \<lparr>gqcs_ok = True, gqcs_error = 0, completion_key = Some 2\<rparr>,
      pipe_ready = \<lparr>GetOverlappedResult = Transferred [], ReadFile = ReadStarted\<rparr>,
      GetExitCodeProcess = 0\<rparr>"

text \<open>
  A state in which the batch of three jobs is running and has written the stream of the
  jobs \<^verbatim>\<open>echo A\<close>, \<^verbatim>\<open>false\<close>, \<^verbatim>\<open>echo C\<close>; and the answers to the \<^verbatim>\<open>DoWork\<close> that finds
  its pipe broken, the batch having exited with code 1.
\<close>

definition batch_written :: system where
  "batch_written =
     \<lparr>batch_mode = True, batch_command = ''dbsrun dbsbuild -k -p Unknown -s '',
      running = [2], finished = [], procs_to_batch = [], batch_process = Some 2,
      objects = [1 \<mapsto> Subprocess_new, 3 \<mapsto> Subprocess_new, 4 \<mapsto> Subprocess_new,
                 2 \<mapsto> Subprocess_new\<lparr>child := Some 9, is_reading := True, pipe := Some 7,
                                       buf := framing_stream\<rparr>],
      batch_objects = [2 \<mapsto> \<lparr>script_filename = ''script.tmp'', children = [1, 3, 4]\<rparr>],
      files = Map.empty\<rparr>"

definition batch_done_os :: dowork_os where
  "batch_done_os =
     \<lparr>new_BatchSubprocess = 5, GetTempFileName = ''script2.tmp'', batch_start = started_os,
      GetQueuedCompletionStatus = \<lparr>gqcs_ok = False, gqcs_error = ERROR_BROKEN_PIPE,
                                   completion_key = Some 2\<rparr>,
      pipe_ready = \<lparr>GetOverlappedResult = OverlappedFailed ERROR_BROKEN_PIPE,
                    ReadFile = ReadStarted\<rparr>,
      GetExitCodeProcess = 1\<rparr>"

text \<open>
  The same state, the output of the batch cut off after the start token of job 0, before
  the end of its line.
\<close>

definition batch_cut :: system where
  "batch_cut =
     \<lparr>batch_mode = True, batch_command = ''dbsrun dbsbuild -k -p Unknown -s '',
      running = [2], finished = [], procs_to_batch = [], batch_process = Some 2,
      objects = [1 \<mapsto> Subprocess_new, 3 \<mapsto> Subprocess_new, 4 \<mapsto> Subprocess_new,
                 2 \<mapsto> Subprocess_new\<lparr>child := Some 9, is_reading := True, pipe := Some 7,
                                       buf := ''__batchitem__=0''\<rparr>],
      batch_objects = [2 \<mapsto> \<lparr>script_filename = ''script.tmp'', children = [1, 3, 4]\<rparr>],
      files = Map.empty\<rparr>"

text \<open>
  A state with batching on, the plain process 6 running (added before batching was
  turned on) and the job 1 pending; and the answers to a \<^verbatim>\<open>DoWork\<close> whose batch is not
  found and whose wait returns a packet of process 6, which goes on reading.
\<close>

definition batch_pending :: system where
  "batch_pending =
     \<lparr>batch_mode = True, batch_command = ''dbsrun dbsbuild -k -p Unknown -s '',
      running = [6], finished = [], procs_to_batch = [(1, ''nosuch.exe'')],
      batch_process = None,
      objects = [6 \<mapsto> Subprocess_new\<lparr>child := Some 9, pipe := Some 7\<rparr>, 1 \<mapsto> Subprocess_new],
      batch_objects = Map.empty, files = Map.empty\<rparr>"

definition not_found_batch_os :: dowork_os where
  "not_found_batch_os =
     \<lparr>new_BatchSubprocess = 2, GetTempFileName = ''script.tmp'', batch_start = not_found_os,
      GetQueuedCompletionStatus = \<lparr>gqcs_ok = True, gqcs_error = 0, completion_key = Some 6\<rparr>,
      pipe_ready = \<lparr>GetOverlappedResult = Transferred [], ReadFile = ReadStarted\<rparr>,
      GetExitCodeProcess = 0\<rparr>"

text \<open>What a call of \<^verbatim>\<open>DoWork\<close> that returned shows.\<close>

definition DoWork_returned :: "(abort + bool \<times> system) option \<Rightarrow> bool option" where
  "DoWork_returned res = (case res of Some (Inr (r, s')) \<Rightarrow> Some r | _ \<Rightarrow> None)"

definition DoWork_running :: "(abort + bool \<times> system) option \<Rightarrow> ptr list option" where
  "DoWork_running res = (case res of Some (Inr (r, s')) \<Rightarrow> Some (running s') | _ \<Rightarrow> None)"

definition DoWork_finished :: "(abort + bool \<times> system) option \<Rightarrow> ptr list option" where
  "DoWork_finished res = (case res of Some (Inr (r, s')) \<Rightarrow> Some (finished s') | _ \<Rightarrow> None)"

definition DoWork_pending :: "(abort + bool \<times> system) option \<Rightarrow> ptr list option" where
  "DoWork_pending res =
     (case res of Some (Inr (r, s')) \<Rightarrow> Some (pending_handles s') | _ \<Rightarrow> None)"

section \<open>Properties of \<^verbatim>\<open>ParseOutput\<close>\<close>

text \<open>
  The searches find the token where it first occurs, and find nothing only when it does
  not occur; the position after a newline is inside the buffer.
\<close>

lemma find_here_None_iff: "find_here tok s = None \<longleftrightarrow> \<not> sublist tok s"
  by (induction s) (auto simp: sublist_Cons_right)

lemma string_find_None_iff: "string_find s tok 0 = None \<longleftrightarrow> \<not> sublist tok s"
  by (simp add: string_find_def find_here_None_iff)

lemma find_here_Some: "find_here tok s = Some k \<Longrightarrow> k \<le> length s \<and> prefix tok (drop k s)"
  by (induction s arbitrary: k) (auto split: if_splits)

lemma string_find_Some:
  "string_find s tok pos = Some k \<Longrightarrow> pos \<le> k \<and> k \<le> length s \<and> prefix tok (drop k s)"
  by (auto simp: string_find_def add.commute split: if_splits dest!: find_here_Some)

lemma index_of_less: "index_of c s = Some k \<Longrightarrow> k < length s"
  by (induction s arbitrary: k) (auto split: if_splits)

lemma after_newline_le: "after_newline s pos \<le> length s"
  by (auto simp: after_newline_def find_first_of_def split: option.splits if_splits dest!: index_of_less)

text \<open>What \<^verbatim>\<open>atoi\<close> and \<^verbatim>\<open>%d\<close> give on a few inputs.\<close>

lemma decimal_examples:
  "decimal 0 = ''0''" "decimal 7 = ''7''" "decimal 10 = ''10''" "decimal 305 = ''305''"
  by code_simp+

lemma atoi_examples:
  "atoi ''0\<newline>A'' = 0" "atoi ''12\<newline>'' = 12" "atoi '''' = 0" "atoi '' -7x'' = - 7"
  "atoi ''99999999999'' = 2147483647"
  by code_simp+

text \<open>
  Claim C1. On the stream of the jobs \<^verbatim>\<open>echo A\<close>, \<^verbatim>\<open>false\<close>, \<^verbatim>\<open>echo C\<close>,
  \<^verbatim>\<open>ParseOutput\<close> returns with the successful jobs 0 and 2, the output \<^verbatim>\<open>"A\n"\<close> for
  job 0 and \<^verbatim>\<open>"C\n"\<close> for job 2; job 1 is not successful and its output is empty.
\<close>

theorem ParseOutput_framing_stream:
  "parsed_successful (ParseOutput framing_stream {} Map.empty) = Some {0, 2}
   \<and> parsed_output (ParseOutput framing_stream {} Map.empty) 0 = Some (Some ''A\<newline>'')
   \<and> parsed_output (ParseOutput framing_stream {} Map.empty) 2 = Some (Some ''C\<newline>'')
   \<and> parsed_output (ParseOutput framing_stream {} Map.empty) 1 = Some (Some [])"
  by code_simp

lemma copy_ranges_whole: "copy_ranges buffer [(0, length buffer)] = buffer"
  by (simp add: copy_ranges_def append_range_def substr_def)

text \<open>
  Claim C5, as stated, fails: a buffer that holds a completion token and no start token
  has the token's line removed and the token's job recorded.
\<close>

theorem ParseOutput_without_start_token_counterexample:
  "string_find ''__batchitem_complete__=0\<newline>'' start_token 0 = None
   \<and> parsed_successful (ParseOutput ''__batchitem_complete__=0\<newline>'' {} Map.empty) = Some {0}
   \<and> parsed_buf (ParseOutput ''__batchitem_complete__=0\<newline>'' {} Map.empty) = Some []"
  by code_simp

text \<open>
  Claim C5, amended. For every buffer that holds neither the start token nor the
  completion token, \<^verbatim>\<open>ParseOutput\<close> returns, leaves the buffer as it is, and leaves the
  set of successful jobs and the output map empty.
\<close>

theorem ParseOutput_without_tokens:
  assumes "string_find buffer start_token 0 = None"
    and "string_find buffer complete_token 0 = None"
  shows "ParseOutput buffer {} Map.empty =
     Some (Inr \<lparr>successful_jobs = {}, job_output = Map.empty, new_buf = buffer\<rparr>)"
  using assms by (simp add: ParseOutput_def strip_pass_def split_pass_def copy_ranges_whole)

theorem ParseOutput_without_tokens_witness:
  "string_find not_found_message start_token 0 = None
   \<and> string_find not_found_message complete_token 0 = None
   \<and> ParseOutput not_found_message {} Map.empty =
       Some (Inr \<lparr>successful_jobs = {}, job_output = Map.empty, new_buf = not_found_message\<rparr>)"
proof -
  have a: "string_find not_found_message start_token 0 = None" by code_simp
  have b: "string_find not_found_message complete_token 0 = None" by code_simp
  show ?thesis using ParseOutput_without_tokens [OF a b] a b by simp
qed

text \<open>
  A start token with no newline after it: the second loop starts over at position 0,
  finds the same token, and never ends.
\<close>

lemma split_loop_never_returns_here:
  assumes "split_loop buffer loc m = Some y"
  shows "\<not> (buffer = ''__batchitem__=0'' \<and> loc = 0)"
proof (rule split_loop.raw_induct
    [where P = "\<lambda>buffer loc m y. \<not> (buffer = ''__batchitem__=0'' \<and> loc = 0)", OF _ assms])
  fix f :: "string \<Rightarrow> nat \<Rightarrow> (int \<rightharpoonup> string) \<Rightarrow> (parse_error + (int \<rightharpoonup> string)) option"
  fix buffer loc m y
  assume IH: "\<And>buffer loc m y. f buffer loc m = Some y \<Longrightarrow> \<not> (buffer = ''__batchitem__=0'' \<and> loc = 0)"
  assume eq: "(let jobIdStart = loc + length start_token + 1
      in if length buffer < jobIdStart then Some (Inl ReadPastEnd)
         else let jobId = atoi (drop jobIdStart buffer);
                  start_pos = after_newline buffer jobIdStart
              in case string_find buffer start_token start_pos of
                 None \<Rightarrow> Some (Inr (m(jobId \<mapsto> drop start_pos buffer)))
                 | Some next_loc \<Rightarrow>
                     f buffer next_loc (m(jobId \<mapsto> substr buffer start_pos (next_loc - start_pos)))) =
     Some y"
  show "\<not> (buffer = ''__batchitem__=0'' \<and> loc = 0)"
  proof
    assume here: "buffer = ''__batchitem__=0'' \<and> loc = 0"
    have j: "0 + length start_token + 1 = 14" by code_simp
    have s1: "string_find ''__batchitem__=0'' start_token 0 = Some 0" by code_simp
    have s2: "after_newline ''__batchitem__=0'' 14 = 0" by code_simp
    have s3: "(length ''__batchitem__=0'' < 14) = False" by code_simp
    from eq here have "\<exists>m'. f ''__batchitem__=0'' 0 m' = Some y"
      by (simp only: Let_def j s1 s2 s3 if_False option.case) blast
    then obtain m' where "f ''__batchitem__=0'' 0 m' = Some y" ..
    from IH [OF this] show False by simp
  qed
qed

lemma split_loop_diverges: "split_loop ''__batchitem__=0'' 0 m = None"
  using split_loop_never_returns_here by (cases "split_loop ''__batchitem__=0'' 0 m") auto

text \<open>
  Claim C10 fails on the code. The buffer \<^verbatim>\<open>"__batchitem__=0"\<close> holds a start token,
  and \<^verbatim>\<open>ParseOutput\<close> does not return on it.
\<close>

theorem ParseOutput_diverges_without_newline:
  "string_find ''__batchitem__=0'' start_token 0 = Some 0
   \<and> ParseOutput ''__batchitem__=0'' {} Map.empty = None"
proof -
  have a: "strip_pass ''__batchitem__=0'' {} = Some (Inr ([(0, 15)], {}))" by code_simp
  have b: "copy_ranges ''__batchitem__=0'' [(0, 15)] = ''__batchitem__=0''" by code_simp
  have c: "string_find ''__batchitem__=0'' start_token 0 = Some 0" by code_simp
  show ?thesis
    using c by (simp add: ParseOutput_def a b split_pass_def split_loop_diverges del: One_nat_def)
qed

section \<open>Properties of \<^verbatim>\<open>Subprocess\<close>\<close>

text \<open>
  Claim C3. When \<^verbatim>\<open>Start\<close> reaches \<^verbatim>\<open>CreateProcessA\<close> on a process that has no child
  and no override status, and the call fails because the file is not found, \<^verbatim>\<open>Start\<close>
  returns true; the process is done, has no process handle, and its output is the
  message, which is not empty; \<^verbatim>\<open>Finish\<close> on it returns the failure status.
\<close>

theorem Start_not_found:
  assumes "SetupPipe p os = Inr (child_pipe, p1)"
    and "OpenNul_ok os"
    and "CreateProcess os = CreateProcessFailed ERROR_FILE_NOT_FOUND"
    and "child p = None"
    and "\<not> use_override_status p"
  shows "Start p os command = Inr (True, p1\<lparr>pipe := None, buf := not_found_message\<rparr>)
    \<and> Done (p1\<lparr>pipe := None, buf := not_found_message\<rparr>)
    \<and> child (p1\<lparr>pipe := None, buf := not_found_message\<rparr>) = None
    \<and> GetOutput (p1\<lparr>pipe := None, buf := not_found_message\<rparr>) = not_found_message
    \<and> not_found_message \<noteq> []
    \<and> fst (Finish (p1\<lparr>pipe := None, buf := not_found_message\<rparr>) exit_code) = ExitFailure"
proof -
  from assms(1) have p1: "child p1 = child p" "use_override_status p1 = use_override_status p"
    by (auto simp: SetupPipe_def split: option.splits if_splits)
  show ?thesis
    using assms p1
    by (simp add: Start_def Done_def GetOutput_def Finish_def not_found_message_def)
qed

theorem Start_not_found_witness:
  "SetupPipe Subprocess_new not_found_os = Inr (Some 8, Subprocess_new\<lparr>pipe := Some 7\<rparr>)
   \<and> OpenNul_ok not_found_os
   \<and> CreateProcess not_found_os = CreateProcessFailed ERROR_FILE_NOT_FOUND
   \<and> child Subprocess_new = None \<and> \<not> use_override_status Subprocess_new
   \<and> Start Subprocess_new not_found_os ''nosuch.exe'' =
       Inr (True, Subprocess_new\<lparr>pipe := None, buf := not_found_message\<rparr>)
   \<and> fst (Finish (Subprocess_new\<lparr>pipe := None, buf := not_found_message\<rparr>) 0) = ExitFailure"
proof -
  have a: "SetupPipe Subprocess_new not_found_os = Inr (Some 8, Subprocess_new\<lparr>pipe := Some 7\<rparr>)"
    by (simp add: SetupPipe_def not_found_os_def)
  have b: "OpenNul_ok not_found_os"
    by (simp add: not_found_os_def)
  have c: "CreateProcess not_found_os = CreateProcessFailed ERROR_FILE_NOT_FOUND"
    by (simp add: not_found_os_def)
  have d: "child Subprocess_new = None"
    by (simp add: Subprocess_new_def)
  have e: "\<not> use_override_status Subprocess_new"
    by (simp add: Subprocess_new_def)
  show ?thesis
    using Start_not_found [OF a b c d e, of "''nosuch.exe''" 0] a b c d e by simp
qed

text \<open>
  Claim C4. With an override status, \<^verbatim>\<open>Finish\<close> returns it and leaves the process,
  its process handle included, as it is, whatever the exit code. Without one, on a
  process with a process handle, exit code 0 is success, \<^verbatim>\<open>CONTROL_C_EXIT\<close> is
  interrupted, every other exit code is failure, and the handle is released.
\<close>

theorem Finish_classification:
  "(use_override_status p \<longrightarrow> Finish p exit_code = (override_status p, p)) \<and>
   (\<not> use_override_status p \<and> child p \<noteq> None \<longrightarrow>
      fst (Finish p 0) = ExitSuccess \<and>
      fst (Finish p CONTROL_C_EXIT) = ExitInterrupted \<and>
      (exit_code \<noteq> 0 \<and> exit_code \<noteq> CONTROL_C_EXIT \<longrightarrow> fst (Finish p exit_code) = ExitFailure) \<and>
      snd (Finish p exit_code) = p\<lparr>child := None\<rparr>)"
  by (simp add: Finish_def CONTROL_C_EXIT_def)

theorem Finish_classification_witness:
  "use_override_status
     (Subprocess_new\<lparr>child := Some 3, use_override_status := True, override_status := ExitSuccess\<rparr>)
   \<and> Finish (Subprocess_new\<lparr>child := Some 3, use_override_status := True,
                override_status := ExitSuccess\<rparr>) 5
       = (ExitSuccess, Subprocess_new\<lparr>child := Some 3, use_override_status := True,
            override_status := ExitSuccess\<rparr>)
   \<and> \<not> use_override_status (Subprocess_new\<lparr>child := Some 3\<rparr>)
   \<and> child (Subprocess_new\<lparr>child := Some 3\<rparr>) \<noteq> None
   \<and> (5 :: DWORD) \<noteq> 0 \<and> (5 :: DWORD) \<noteq> CONTROL_C_EXIT
   \<and> fst (Finish (Subprocess_new\<lparr>child := Some 3\<rparr>) 0) = ExitSuccess
   \<and> fst (Finish (Subprocess_new\<lparr>child := Some 3\<rparr>) CONTROL_C_EXIT) = ExitInterrupted
   \<and> fst (Finish (Subprocess_new\<lparr>child := Some 3\<rparr>) 5) = ExitFailure"
  using Finish_classification
      [of "Subprocess_new\<lparr>child := Some 3, use_override_status := True,
             override_status := ExitSuccess\<rparr>" 5]
    Finish_classification [of "Subprocess_new\<lparr>child := Some 3\<rparr>" 5]
  by (simp add: Subprocess_new_def CONTROL_C_EXIT_def)

section \<open>The batch script\<close>

lemma int_of_uint32_small: "i < 2 ^ 31 \<Longrightarrow> int_of_uint32 i = int i"
proof -
  assume small: "i < 2 ^ 31"
  then have "int i < 2 ^ 31"
    by (metis of_nat_less_iff of_nat_numeral of_nat_power)
  then have "signed_take_bit 31 (int i) = int i"
    by (intro signed_take_bit_int_eq_self) auto
  then show ?thesis
    by (simp add: int_of_uint32_def signed_of_nat)
qed

lemma printf_d_small: "i < 2 ^ 31 \<Longrightarrow> printf_d (int_of_uint32 i) = decimal i"
  by (simp add: printf_d_def int_of_uint32_small)

lemma batch_lines_small:
  "i < 2 ^ 31 \<Longrightarrow> batch_id i @ command @ batch_complete i = spec_job_lines i command"
  by (simp add: batch_id_def batch_complete_def spec_job_lines_def printf_d_small)

lemma batch_loop_spec:
  "i + length batch_procs \<le> 2 ^ 31 \<Longrightarrow>
   batch_loop i batch_procs (script_contents, kids) =
     (script_contents @ spec_script_from i (map snd batch_procs), kids @ map fst batch_procs)"
proof (induction batch_procs arbitrary: i script_contents kids)
  case Nil
  then show ?case by simp
next
  case (Cons sp rest)
  from Cons.prems have small: "i < 2 ^ 31" and rest: "(i + 1) + length rest \<le> 2 ^ 31"
    by auto
  show ?case
    using Cons.IH [OF rest] batch_lines_small [OF small] by simp
qed

text \<open>
  Claim C9. For a list of at most \<open>2^31\<close> pending jobs (every index is then an
  \<^verbatim>\<open>int\<close>), the constructor records the children in the order of the list and writes,
  for the job at each index \<open>i\<close> from 0 on, the line \<^verbatim>\<open>echo __batchitem__=i\<close> and the
  line of the command followed by \<^verbatim>\<open> && echo __batchitem_complete__=i\<close>, each ended by
  a newline, with \<open>i\<close> in decimal.
\<close>

theorem BatchSubprocess_script:
  assumes "length batch_procs \<le> 2 ^ 31" and "temp \<noteq> []"
  shows "BatchSubprocess_new temp batch_procs =
     Inr (Subprocess_new, \<lparr>script_filename = temp, children = map fst batch_procs\<rparr>,
          spec_script_from 0 (map snd batch_procs))"
  using assms batch_loop_spec [of 0 batch_procs "[]" "[]"]
  by (simp add: BatchSubprocess_new_def)

theorem BatchSubprocess_script_witness:
  "length [(1, ''echo A''), (2, ''false''), (3 :: nat, ''echo C'')] \<le> 2 ^ 31
   \<and> ''script.tmp'' \<noteq> []
   \<and> BatchSubprocess_new ''script.tmp'' [(1, ''echo A''), (2, ''false''), (3, ''echo C'')] =
     Inr (Subprocess_new, \<lparr>script_filename = ''script.tmp'', children = [1, 2, 3]\<rparr>,
       ''echo __batchitem__=0\<newline>echo A && echo __batchitem_complete__=0\<newline>echo __batchitem__=1\<newline>false && echo __batchitem_complete__=1\<newline>echo __batchitem__=2\<newline>echo C && echo __batchitem_complete__=2\<newline>'')"
proof -
  have a: "length [(1 :: nat, ''echo A''), (2, ''false''), (3 :: nat, ''echo C'')] \<le> 2 ^ 31"
    by simp
  have b: "''script.tmp'' \<noteq> []"
    by simp
  have c: "spec_script_from 0 (map snd [(1 :: nat, ''echo A''), (2, ''false''), (3 :: nat, ''echo C'')]) =
     ''echo __batchitem__=0\<newline>echo A && echo __batchitem_complete__=0\<newline>echo __batchitem__=1\<newline>false && echo __batchitem_complete__=1\<newline>echo __batchitem__=2\<newline>echo C && echo __batchitem_complete__=2\<newline>''"
    by code_simp
  show ?thesis
    using BatchSubprocess_script [OF a b] c a by simp
qed

section \<open>Properties of \<^verbatim>\<open>DoWork\<close>\<close>

lemma NotifyInterrupted_packet:
  "NotifyInterrupted dwCtrlType post_ok = Inr (handled, Some ev) \<Longrightarrow>
   completion_key ev = None \<and> gqcs_ok ev"
  by (auto simp: NotifyInterrupted_def split: if_splits)

text \<open>
  Claim C7. When the wait returns a packet whose key is null, the rest of \<^verbatim>\<open>DoWork\<close>
  returns true and leaves every process and every collection as the wait found them:
  the state is the one in which the wait was entered.
\<close>

theorem DoWork_interrupted:
  assumes "completion_key (GetQueuedCompletionStatus os) = None"
    and "gqcs_ok (GetQueuedCompletionStatus os)
         \<or> gqcs_error (GetQueuedCompletionStatus os) = ERROR_BROKEN_PIPE"
  shows "handle_completion s os = Some (Inr (True, s))
     \<and> (procs_to_batch s = [] \<longrightarrow> DoWork s os = Some (Inr (True, s)))
     \<and> (start_pending_batch s os = Inr (None, s1) \<longrightarrow> DoWork s os = Some (Inr (True, s1)))"
proof -
  have h: "handle_completion s' os = Some (Inr (True, s'))" for s'
    using assms by (auto simp: handle_completion_def Let_def)
  show ?thesis
    using h by (simp add: DoWork_def start_pending_batch_def)
qed

theorem DoWork_interrupted_witness:
  "completion_key (GetQueuedCompletionStatus interrupted_os) = None
   \<and> (gqcs_ok (GetQueuedCompletionStatus interrupted_os)
         \<or> gqcs_error (GetQueuedCompletionStatus interrupted_os) = ERROR_BROKEN_PIPE)
   \<and> procs_to_batch SubprocessSet_new = []
   \<and> DoWork SubprocessSet_new interrupted_os = Some (Inr (True, SubprocessSet_new))"
proof -
  have a: "completion_key (GetQueuedCompletionStatus interrupted_os) = None"
    by (simp add: interrupted_os_def)
  have b: "gqcs_ok (GetQueuedCompletionStatus interrupted_os)
         \<or> gqcs_error (GetQueuedCompletionStatus interrupted_os) = ERROR_BROKEN_PIPE"
    by (simp add: interrupted_os_def)
  have c: "procs_to_batch SubprocessSet_new = []"
    by (simp add: SubprocessSet_new_def)
  show ?thesis
    using DoWork_interrupted [OF a b, of SubprocessSet_new] a b c by simp
qed

text \<open>
  Claim C6 fails on the code. A job is pending, and \<^verbatim>\<open>DoWork\<close> starts the batch, whose
  executable is not found. \<^verbatim>\<open>DoWork\<close> goes on to handle a packet of another process
  and returns false: the job's handle is in none of the collections, and neither is the
  batch. The same holds from a new set, when the wait returns the packet of an
  interrupt. Without batching, \<^verbatim>\<open>Add\<close> puts a process that is not found on the finished
  queue.
\<close>

theorem DoWork_batch_not_found_dropped:
  "DoWork_returned (DoWork batch_pending not_found_batch_os) = Some False
   \<and> DoWork_running (DoWork batch_pending not_found_batch_os) = Some [6]
   \<and> DoWork_finished (DoWork batch_pending not_found_batch_os) = Some []
   \<and> DoWork_pending (DoWork batch_pending not_found_batch_os) = Some []
   \<and> handed_out_after (run (initial True 1 None)
      [CallAdd 1 not_found_os ''nosuch.exe'', CallDoWork interrupted_os]) = Some [1]
   \<and> running_after (run (initial True 1 None)
      [CallAdd 1 not_found_os ''nosuch.exe'', CallDoWork interrupted_os]) = Some []
   \<and> finished_after (run (initial True 1 None)
      [CallAdd 1 not_found_os ''nosuch.exe'', CallDoWork interrupted_os]) = Some []
   \<and> pending_after (run (initial True 1 None)
      [CallAdd 1 not_found_os ''nosuch.exe'', CallDoWork interrupted_os]) = Some []
   \<and> finished_after (run (initial False 1 None)
      [CallAdd 1 not_found_os ''nosuch.exe'']) = Some [1]"
  by code_simp

section \<open>The redistribution of a finished batch\<close>

lemma Start_returns_true: "Start p os command = Inr (started, p') \<Longrightarrow> started"
  by (auto simp: Start_def split: sum.splits prod.splits if_splits create_process.splits)

lemma batch_loop_children:
  "snd (batch_loop i batch_procs (script_contents, kids)) = kids @ map fst batch_procs"
  by (induction batch_procs arbitrary: i script_contents kids) auto

lemma BatchSubprocess_new_children:
  "BatchSubprocess_new temp batch_procs = Inr (obj, members, script_contents) \<Longrightarrow>
   children members = map fst batch_procs"
  using batch_loop_children [of 0 batch_procs "[]" "[]"]
  by (auto simp: BatchSubprocess_new_def split: if_splits prod.splits)

lemma start_pending_batch_empty:
  "procs_to_batch s = [] \<Longrightarrow> start_pending_batch s os = Inr (None, s)"
  by (simp add: start_pending_batch_def)

lemma start_pending_batch_shape:
  assumes "start_pending_batch s os = Inr (r, s')" and "procs_to_batch s \<noteq> []"
  shows "r = None \<and> batch_process s' = Some (new_BatchSubprocess os)
    \<and> procs_to_batch s' = [] \<and> finished s' = finished s
    \<and> (running s' = running s \<or> running s' = running s @ [new_BatchSubprocess os])
    \<and> (\<exists>obj. objects s' = (objects s)(new_BatchSubprocess os \<mapsto> obj))
    \<and> (\<exists>members. batch_objects s' (new_BatchSubprocess os) = Some members
          \<and> children members = map fst (procs_to_batch s))
    \<and> batch_mode s' = batch_mode s"
proof -
  from assms obtain obj members script_contents where
    new: "BatchSubprocess_new (GetTempFileName os) (procs_to_batch s) = Inr (obj, members, script_contents)"
    by (auto simp: start_pending_batch_def split: sum.splits)
  note kids = BatchSubprocess_new_children [OF new]
  from assms new obtain started obj1 where
    st: "Start obj (batch_start os) (batch_command s @ script_filename members) = Inr (started, obj1)"
    by (auto simp: start_pending_batch_def Let_def split: sum.splits)
  note Start_returns_true [OF st]
  with assms new st kids show ?thesis
    by (auto simp: start_pending_batch_def Let_def split: if_splits)
qed


lemma redistribute_shape:
  assumes "\<forall>c \<in> set cs. objects s c \<noteq> None"
  shows "\<exists>s'. redistribute err successful out n cs s = Inr s'
    \<and> finished s' = finished s @ cs \<and> running s' = running s
    \<and> procs_to_batch s' = procs_to_batch s \<and> batch_process s' = batch_process s
    \<and> batch_objects s' = batch_objects s \<and> files s' = files s
    \<and> batch_mode s' = batch_mode s \<and> batch_command s' = batch_command s
    \<and> (\<forall>q. (objects s' q = None) = (objects s q = None))
    \<and> (\<forall>q. q \<notin> set cs \<longrightarrow> objects s' q = objects s q)"
  using assms
proof (induction cs arbitrary: n s)
  case Nil
  then show ?case by simp
next
  case (Cons c cs)
  from Cons.prems obtain obj where obj: "objects s c = Some obj" by auto
  define s1 where "s1 = s\<lparr>objects := (objects s)(c \<mapsto> obj\<lparr>use_override_status := True,
      override_status := (if int_of_uint32 n \<in> successful then ExitSuccess else err),
      buf := map_index out (int_of_uint32 n)\<rparr>), finished := finished s @ [c]\<rparr>"
  have live: "\<forall>c \<in> set cs. objects s1 c \<noteq> None"
    using Cons.prems by (simp add: s1_def)
  from Cons.IH [OF live, of "n + 1"] obtain s' where
    s': "redistribute err successful out (n + 1) cs s1 = Inr s'"
      "finished s' = finished s1 @ cs" "running s' = running s1"
      "procs_to_batch s' = procs_to_batch s1" "batch_process s' = batch_process s1"
      "batch_objects s' = batch_objects s1" "files s' = files s1"
      "batch_mode s' = batch_mode s1" "batch_command s' = batch_command s1"
      "\<forall>q. (objects s' q = None) = (objects s1 q = None)"
      "\<forall>q. q \<notin> set cs \<longrightarrow> objects s' q = objects s1 q"
    by blast
  have step: "redistribute err successful out n (c # cs) s = redistribute err successful out (n + 1) cs s1"
    using obj by (simp add: s1_def Let_def)
  show ?case
    unfolding step using s' obj by (auto simp: s1_def)
qed

lemma redistribute_live:
  "redistribute err successful out n cs s = Inr s' \<Longrightarrow> \<forall>c \<in> set cs. objects s c \<noteq> None"
proof (induction cs arbitrary: n s)
  case Nil
  then show ?case by simp
next
  case (Cons c cs)
  from Cons.prems obtain obj where obj: "objects s c = Some obj"
    by (auto split: option.splits)
  define s1 where "s1 = s\<lparr>objects := (objects s)(c \<mapsto> obj\<lparr>use_override_status := True,
      override_status := (if int_of_uint32 n \<in> successful then ExitSuccess else err),
      buf := map_index out (int_of_uint32 n)\<rparr>), finished := finished s @ [c]\<rparr>"
  have step: "redistribute err successful out (n + 1) cs s1 = Inr s'"
    using Cons.prems obj by (simp add: s1_def Let_def)
  from Cons.IH [OF step] have "\<forall>d \<in> set cs. objects s1 d \<noteq> None" .
  then have "\<forall>d \<in> set cs. objects s d \<noteq> None"
    using obj by (auto simp: s1_def split: if_splits)
  with obj show ?case by simp
qed

lemma redistribute_child:
  assumes "redistribute err successful out n cs s = Inr s'"
    and "distinct cs" and "i < length cs" and "objects s (cs ! i) = Some obj"
  shows "objects s' (cs ! i) = Some (obj\<lparr>use_override_status := True,
      override_status := (if int_of_uint32 (n + i) \<in> successful then ExitSuccess else err),
      buf := map_index out (int_of_uint32 (n + i))\<rparr>)"
  using assms
proof (induction cs arbitrary: n s i)
  case Nil
  then show ?case by simp
next
  case (Cons c cs)
  from Cons.prems(1) obtain obj0 where obj0: "objects s c = Some obj0"
    by (auto split: option.splits)
  define s1 where "s1 = s\<lparr>objects := (objects s)(c \<mapsto> obj0\<lparr>use_override_status := True,
      override_status := (if int_of_uint32 n \<in> successful then ExitSuccess else err),
      buf := map_index out (int_of_uint32 n)\<rparr>), finished := finished s @ [c]\<rparr>"
  have step: "redistribute err successful out (n + 1) cs s1 = Inr s'"
    using Cons.prems(1) obj0 by (simp add: s1_def Let_def)
  show ?case
  proof (cases i)
    case 0
    have live: "\<forall>d \<in> set cs. objects s1 d \<noteq> None"
      using redistribute_live [OF step] .
    from redistribute_shape [OF live, of err successful out "n + 1"] step
    have keep: "\<forall>q. q \<notin> set cs \<longrightarrow> objects s' q = objects s1 q" by auto
    from Cons.prems(2) have "c \<notin> set cs" by simp
    with keep have "objects s' c = objects s1 c" by simp
    with 0 Cons.prems(4) obj0 show ?thesis by (simp add: s1_def)
  next
    case (Suc j)
    from Cons.prems(2) Cons.prems(3) Suc have neq: "cs ! j \<noteq> c" by auto
    have "objects s1 (cs ! j) = Some obj"
      using Cons.prems(4) Suc neq by (simp add: s1_def)
    from Cons.IH [OF step _ _ this] Cons.prems(2) Cons.prems(3) Suc
    show ?thesis by simp
  qed
qed


lemma Finish_buf: "buf (snd (Finish p exit_code)) = buf p"
  by (simp add: Finish_def)

lemma finish_batch_shape:
  assumes parse: "ParseOutput (buf p) {} Map.empty = Some (Inr r)"
    and members: "batch_objects s b = Some members"
    and live: "\<forall>c \<in> set (children members). objects s c \<noteq> None"
  shows "\<exists>s'. finish_batch s b p os = Some (Inr (False, s'))
    \<and> finished s' = finished s @ children members
    \<and> running s' = removeAll b (running s)
    \<and> procs_to_batch s' = procs_to_batch s
    \<and> batch_process s' = None
    \<and> batch_mode s' = batch_mode s
    \<and> objects s' b = None
    \<and> (\<forall>q. q \<noteq> b \<longrightarrow> (objects s' q = None) = (objects s q = None))
    \<and> (distinct (children members) \<and> b \<notin> set (children members) \<longrightarrow>
         (\<forall>i < length (children members). \<forall>obj.
            objects s (children members ! i) = Some obj \<longrightarrow>
            objects s' (children members ! i) =
              Some (obj\<lparr>use_override_status := True,
                override_status := (if int_of_uint32 i \<in> successful_jobs r then ExitSuccess
                                    else fst (Finish p (GetExitCodeProcess os))),
                buf := map_index (job_output r) (int_of_uint32 i)\<rparr>)))"
proof -
  define err where "err = fst (Finish p (GetExitCodeProcess os))"
  define p1 where "p1 = snd (Finish p (GetExitCodeProcess os))"
  define s1 where "s1 = s\<lparr>objects := (objects s)(b \<mapsto> p1\<lparr>buf := new_buf r\<rparr>)\<rparr>"
  have fin: "Finish p (GetExitCodeProcess os) = (err, p1)"
    by (simp add: err_def p1_def)
  have parse1: "ParseOutput (buf p1) {} Map.empty = Some (Inr r)"
    using parse by (simp add: p1_def Finish_buf)
  have live1: "\<forall>c \<in> set (children members). objects s1 c \<noteq> None"
    using live by (simp add: s1_def)
  from redistribute_shape [OF live1, of err "successful_jobs r" "job_output r" 0]
  obtain s2 where
    s2: "redistribute err (successful_jobs r) (job_output r) 0 (children members) s1 = Inr s2"
      "finished s2 = finished s1 @ children members" "running s2 = running s1"
      "procs_to_batch s2 = procs_to_batch s1" "batch_process s2 = batch_process s1"
      "batch_objects s2 = batch_objects s1" "files s2 = files s1"
      "batch_mode s2 = batch_mode s1" "batch_command s2 = batch_command s1"
      "\<forall>q. (objects s2 q = None) = (objects s1 q = None)"
      "\<forall>q. q \<notin> set (children members) \<longrightarrow> objects s2 q = objects s1 q"
    by blast
  define s' where
    "s' = (delete_BatchSubprocess (s2\<lparr>running := removeAll b (running s2)\<rparr>) b)\<lparr>batch_process := None\<rparr>"
  have result: "finish_batch s b p os = Some (Inr (False, s'))"
    using fin parse1 members s2(1)
    by (simp add: finish_batch_def Let_def s1_def [symmetric] s'_def)
  have kids: "objects s' (children members ! i) =
      Some (obj\<lparr>use_override_status := True,
        override_status := (if int_of_uint32 i \<in> successful_jobs r then ExitSuccess else err),
        buf := map_index (job_output r) (int_of_uint32 i)\<rparr>)"
    if d: "distinct (children members)" and nb: "b \<notin> set (children members)"
      and i: "i < length (children members)"
      and obj: "objects s (children members ! i) = Some obj" for i obj
  proof -
    from nb i have neq: "children members ! i \<noteq> b" by (metis nth_mem)
    then have "objects s1 (children members ! i) = Some obj"
      using obj by (simp add: s1_def)
    from redistribute_child [OF s2(1) d i this]
    show ?thesis using neq by (simp add: s'_def delete_BatchSubprocess_def)
  qed
  have fields: "finished s' = finished s @ children members"
      "running s' = removeAll b (running s)" "procs_to_batch s' = procs_to_batch s"
      "batch_process s' = None" "batch_mode s' = batch_mode s" "objects s' b = None"
    using s2 by (simp_all add: s'_def delete_BatchSubprocess_def s1_def)
  have others: "\<forall>q. q \<noteq> b \<longrightarrow> (objects s' q = None) = (objects s q = None)"
    using s2(10) by (simp add: s'_def delete_BatchSubprocess_def s1_def)
  show ?thesis
    using result fields others kids unfolding err_def by blast
qed


text \<open>
  The redistribution, for a parse that returns. The wait is entered in a state whose
  active batch \<open>b\<close> has at most \<open>2^31\<close> children, all live, distinct and other than
  \<open>b\<close>. The packet is for \<open>b\<close>, its pipe is found drained, and \<^verbatim>\<open>ParseOutput\<close> returns
  \<open>r\<close> on its output. Then \<^verbatim>\<open>DoWork\<close> returns false; every child, at its index \<open>i\<close>,
  has its override status set, to success when \<open>i\<close> is among the successful jobs of \<open>r\<close>
  and to the status of the batch's own \<^verbatim>\<open>Finish\<close> otherwise; its output is the entry of
  \<open>i\<close> in the output map of \<open>r\<close>, or empty when there is none; and the children are
  appended, in their order, to the finished queue.
\<close>

lemma DoWork_batch_done_parsed:
  assumes entered: "start_pending_batch s os = Inr (None, s1)"
    and key: "completion_key (GetQueuedCompletionStatus os) = Some b"
    and delivered: "gqcs_ok (GetQueuedCompletionStatus os)
         \<or> gqcs_error (GetQueuedCompletionStatus os) = ERROR_BROKEN_PIPE"
    and active: "batch_process s1 = Some b"
    and object: "objects s1 b = Some p"
    and members: "batch_objects s1 b = Some members"
    and ready: "OnPipeReady p (pipe_ready os) = Inr p1"
    and drained: "Done p1"
    and parse: "ParseOutput (buf p1) {} Map.empty = Some (Inr r)"
    and apart: "distinct (children members)" "b \<notin> set (children members)"
    and live: "\<forall>c \<in> set (children members). objects s1 c \<noteq> None"
    and size: "length (children members) \<le> 2 ^ 31"
  shows "\<exists>s'. DoWork s os = Some (Inr (False, s'))
    \<and> finished s' = finished s1 @ children members
    \<and> (\<forall>i < length (children members). \<exists>obj.
          objects s1 (children members ! i) = Some obj \<and>
          objects s' (children members ! i) =
            Some (obj\<lparr>use_override_status := True,
              override_status := (if int i \<in> successful_jobs r then ExitSuccess
                                  else fst (Finish p1 (GetExitCodeProcess os))),
              buf := (case job_output r (int i) of None \<Rightarrow> [] | Some out \<Rightarrow> out)\<rparr>))"
proof -
  define s2 where "s2 = s1\<lparr>objects := (objects s1)(b \<mapsto> p1)\<rparr>"
  have members2: "batch_objects s2 b = Some members"
    using members by (simp add: s2_def)
  have live2: "\<forall>c \<in> set (children members). objects s2 c \<noteq> None"
    using live by (simp add: s2_def)
  from finish_batch_shape [OF parse members2 live2, of os]
  obtain s' where s': "finish_batch s2 b p1 os = Some (Inr (False, s'))"
      "finished s' = finished s2 @ children members"
      "distinct (children members) \<and> b \<notin> set (children members) \<longrightarrow>
         (\<forall>i < length (children members). \<forall>obj.
            objects s2 (children members ! i) = Some obj \<longrightarrow>
            objects s' (children members ! i) =
              Some (obj\<lparr>use_override_status := True,
                override_status := (if int_of_uint32 i \<in> successful_jobs r then ExitSuccess
                                    else fst (Finish p1 (GetExitCodeProcess os))),
                buf := map_index (job_output r) (int_of_uint32 i)\<rparr>))"
    by blast
  have "handle_completion s1 os = Some (Inr (False, s'))"
    using key delivered active object ready drained s'(1)
    by (auto simp: handle_completion_def Let_def s2_def)
  then have result: "DoWork s os = Some (Inr (False, s'))"
    using entered by (simp add: DoWork_def)
  have each: "\<exists>obj. objects s1 (children members ! i) = Some obj \<and>
          objects s' (children members ! i) =
            Some (obj\<lparr>use_override_status := True,
              override_status := (if int i \<in> successful_jobs r then ExitSuccess
                                  else fst (Finish p1 (GetExitCodeProcess os))),
              buf := (case job_output r (int i) of None \<Rightarrow> [] | Some out \<Rightarrow> out)\<rparr>)"
    if i: "i < length (children members)" for i
  proof -
    from i live obtain obj where obj: "objects s1 (children members ! i) = Some obj"
      by (metis nth_mem not_None_eq)
    from i apart(2) have "children members ! i \<noteq> b" by (metis nth_mem)
    then have obj2: "objects s2 (children members ! i) = Some obj"
      using obj by (simp add: s2_def)
    from i size have "int_of_uint32 i = int i"
      by (intro int_of_uint32_small) simp
    with s'(3) apart i obj2 obj show ?thesis
      by (simp add: map_index_def)
  qed
  show ?thesis
    using result s'(2) each by (auto simp: s2_def)
qed


lemma framing_stream_parsed:
  "\<exists>r. ParseOutput framing_stream {} Map.empty = Some (Inr r)
     \<and> successful_jobs r = {0, 2}
     \<and> job_output r 0 = Some ''A\<newline>'' \<and> job_output r 1 = Some [] \<and> job_output r 2 = Some ''C\<newline>''"
proof -
  have a: "parsed_successful (ParseOutput framing_stream {} Map.empty) = Some {0, 2}"
    by code_simp
  have b: "parsed_output (ParseOutput framing_stream {} Map.empty) 0 = Some (Some ''A\<newline>'')"
    by code_simp
  have c: "parsed_output (ParseOutput framing_stream {} Map.empty) 1 = Some (Some [])"
    by code_simp
  have d: "parsed_output (ParseOutput framing_stream {} Map.empty) 2 = Some (Some ''C\<newline>'')"
    by code_simp
  from a obtain r where r: "ParseOutput framing_stream {} Map.empty = Some (Inr r)"
    by (auto simp: parsed_successful_def split: option.splits sum.splits)
  with a b c d show ?thesis
    by (simp add: parsed_successful_def parsed_output_def)
qed

text \<open>The redistribution on the stream of the three jobs.\<close>

lemma DoWork_batch_done_framing_stream:
  "start_pending_batch batch_written batch_done_os = Inr (None, batch_written)
   \<and> completion_key (GetQueuedCompletionStatus batch_done_os) = Some 2
   \<and> (gqcs_ok (GetQueuedCompletionStatus batch_done_os)
        \<or> gqcs_error (GetQueuedCompletionStatus batch_done_os) = ERROR_BROKEN_PIPE)
   \<and> batch_process batch_written = Some 2
   \<and> batch_objects batch_written 2 = Some \<lparr>script_filename = ''script.tmp'', children = [1, 3, 4]\<rparr>
   \<and> (\<exists>s'. DoWork batch_written batch_done_os = Some (Inr (False, s'))
        \<and> finished s' = [1, 3, 4]
        \<and> objects s' 1 = Some (Subprocess_new\<lparr>use_override_status := True,
             override_status := ExitSuccess, buf := ''A\<newline>''\<rparr>)
        \<and> objects s' 3 = Some (Subprocess_new\<lparr>use_override_status := True,
             override_status := ExitFailure, buf := []\<rparr>)
        \<and> objects s' 4 = Some (Subprocess_new\<lparr>use_override_status := True,
             override_status := ExitSuccess, buf := ''C\<newline>''\<rparr>))"
proof -
  define p where "p = Subprocess_new\<lparr>child := Some 9, is_reading := True, pipe := Some 7,
    buf := framing_stream\<rparr>"
  define kids where "kids = \<lparr>script_filename = ''script.tmp'', children = [1, 3, 4 :: nat]\<rparr>"
  from framing_stream_parsed obtain r where
    r: "ParseOutput framing_stream {} Map.empty = Some (Inr r)" "successful_jobs r = {0, 2}"
      "job_output r 0 = Some ''A\<newline>''" "job_output r 1 = Some []" "job_output r 2 = Some ''C\<newline>''"
    by blast
  have entered: "start_pending_batch batch_written batch_done_os = Inr (None, batch_written)"
    by (simp add: start_pending_batch_def batch_written_def)
  have key: "completion_key (GetQueuedCompletionStatus batch_done_os) = Some 2"
    by (simp add: batch_done_os_def)
  have delivered: "gqcs_ok (GetQueuedCompletionStatus batch_done_os)
        \<or> gqcs_error (GetQueuedCompletionStatus batch_done_os) = ERROR_BROKEN_PIPE"
    by (simp add: batch_done_os_def)
  have active: "batch_process batch_written = Some 2"
    by (simp add: batch_written_def)
  have object: "objects batch_written 2 = Some p"
    by (simp add: batch_written_def p_def)
  have members: "batch_objects batch_written 2 = Some kids"
    by (simp add: batch_written_def kids_def)
  have ready: "OnPipeReady p (pipe_ready batch_done_os) = Inr (p\<lparr>pipe := None\<rparr>)"
    by (simp add: OnPipeReady_def batch_done_os_def)
  have drained: "Done (p\<lparr>pipe := None\<rparr>)"
    by (simp add: Done_def)
  have parse: "ParseOutput (buf (p\<lparr>pipe := None\<rparr>)) {} Map.empty = Some (Inr r)"
    using r(1) by (simp add: p_def)
  have apart: "distinct (children kids)" "2 \<notin> set (children kids)"
    by (simp_all add: kids_def)
  have live: "\<forall>c \<in> set (children kids). objects batch_written c \<noteq> None"
    by (simp add: kids_def batch_written_def)
  have size: "length (children kids) \<le> 2 ^ 31"
    by (simp add: kids_def)
  from DoWork_batch_done_parsed [OF entered key delivered active object members ready drained parse
      apart live size]
  obtain s' where s': "DoWork batch_written batch_done_os = Some (Inr (False, s'))"
      "finished s' = finished batch_written @ children kids"
      "\<forall>i < length (children kids). \<exists>obj.
          objects batch_written (children kids ! i) = Some obj \<and>
          objects s' (children kids ! i) =
            Some (obj\<lparr>use_override_status := True,
              override_status := (if int i \<in> successful_jobs r then ExitSuccess
                 else fst (Finish (p\<lparr>pipe := None\<rparr>) (GetExitCodeProcess batch_done_os))),
              buf := (case job_output r (int i) of None \<Rightarrow> [] | Some out \<Rightarrow> out)\<rparr>)"
    by blast
  have err: "fst (Finish (p\<lparr>pipe := None\<rparr>) (GetExitCodeProcess batch_done_os)) = ExitFailure"
    by (simp add: Finish_def p_def Subprocess_new_def batch_done_os_def CONTROL_C_EXIT_def)
  from s'(3) [rule_format, of 0] have c0: "objects s' 1 = Some (Subprocess_new\<lparr>use_override_status := True,
             override_status := ExitSuccess, buf := ''A\<newline>''\<rparr>)"
    using r by (simp add: kids_def batch_written_def)
  from s'(3) [rule_format, of 1] have c1: "objects s' 3 = Some (Subprocess_new\<lparr>use_override_status := True,
             override_status := ExitFailure, buf := []\<rparr>)"
    using r err by (simp add: kids_def batch_written_def)
  from s'(3) [rule_format, of 2] have c2: "objects s' 4 = Some (Subprocess_new\<lparr>use_override_status := True,
             override_status := ExitSuccess, buf := ''C\<newline>''\<rparr>)"
    using r by (simp add: kids_def batch_written_def)
  have fin: "finished s' = [1, 3, 4]"
    using s'(2) by (simp add: kids_def batch_written_def)
  show ?thesis
    using entered key delivered active members s'(1) fin c0 c1 c2
    unfolding kids_def by blast
qed

text \<open>
  A parse that does not return: the output of the batch holds a start token with no
  newline after it.
\<close>

lemma ParseOutput_cut: "ParseOutput ''__batchitem__=0'' successful job_out = None"
proof -
  have a: "string_find ''__batchitem__=0'' complete_token 0 = None" by code_simp
  have c: "string_find ''__batchitem__=0'' start_token 0 = Some 0" by code_simp
  have first: "strip_pass ''__batchitem__=0'' successful =
      Some (Inr ([(0, length ''__batchitem__=0'')], successful))"
    by (simp only: strip_pass_def a option.case)
  have second: "split_pass ''__batchitem__=0'' successful job_out = None"
    by (simp only: split_pass_def c option.case split_loop_diverges)
  show ?thesis
    by (simp only: ParseOutput_def first option.case sum.case prod.case copy_ranges_whole second)
qed

lemma finish_batch_cut:
  assumes "buf p = ''__batchitem__=0''"
  shows "finish_batch s b p os = None"
  using assms by (simp add: finish_batch_def Finish_def Let_def ParseOutput_cut split: prod.splits)

text \<open>
  Claim C2 fails on the code. The active batch 2 records the children 1, 3 and 4, none of
  them on the finished queue; the batch has exited, and its output was cut off after the
  start token of job 0, before the end of the line. \<^verbatim>\<open>DoWork\<close> finds the pipe of the
  batch drained and calls \<^verbatim>\<open>ParseOutput\<close>, which does not return: \<^verbatim>\<open>DoWork\<close> does not
  return, no child gets a status and none is pushed onto the finished queue. On the
  stream of the three jobs, in the same state, the three children are pushed.
\<close>

theorem DoWork_batch_done_never_returns:
  "batch_process batch_cut = Some 2
   \<and> map_option buf (objects batch_cut 2) = Some ''__batchitem__=0''
   \<and> map_option children (batch_objects batch_cut 2) = Some [1, 3, 4]
   \<and> finished batch_cut = []
   \<and> DoWork batch_cut batch_done_os = None
   \<and> DoWork_finished (DoWork batch_written batch_done_os) = Some [1, 3, 4]"
proof -
  define p where "p = Subprocess_new\<lparr>child := Some 9, is_reading := True, pipe := Some 7,
    buf := ''__batchitem__=0''\<rparr>"
  have entered: "start_pending_batch batch_cut batch_done_os = Inr (None, batch_cut)"
    by (simp add: start_pending_batch_def batch_cut_def)
  have object: "objects batch_cut 2 = Some p"
    by (simp add: batch_cut_def p_def)
  have ready: "OnPipeReady p (pipe_ready batch_done_os) = Inr (p\<lparr>pipe := None\<rparr>)"
    by (simp add: OnPipeReady_def batch_done_os_def)
  have drained: "Done (p\<lparr>pipe := None\<rparr>)"
    by (simp add: Done_def)
  have active: "batch_process batch_cut = Some 2"
    by (simp add: batch_cut_def)
  have cut: "buf (p\<lparr>pipe := None\<rparr>) = ''__batchitem__=0''"
    by (simp add: p_def)
  have "handle_completion batch_cut batch_done_os = None"
    using object ready drained active finish_batch_cut [OF cut]
    by (simp add: handle_completion_def Let_def batch_done_os_def)
  then have hangs: "DoWork batch_cut batch_done_os = None"
    using entered by (simp add: DoWork_def)
  have whole: "DoWork_finished (DoWork batch_written batch_done_os) = Some [1, 3, 4]"
    by code_simp
  have kids: "map_option children (batch_objects batch_cut 2) = Some [1, 3, 4]"
    by (simp add: batch_cut_def)
  have fin: "finished batch_cut = []"
    by (simp add: batch_cut_def)
  show ?thesis
    using active object cut hangs whole kids fin by (simp add: p_def)
qed

text \<open>\<^verbatim>\<open>DoWork\<close> returns true only when the key of the packet is null.\<close>

lemma finish_batch_continues:
  "finish_batch s b p os = Some (Inr (r, s')) \<Longrightarrow> \<not> r"
  by (auto simp: finish_batch_def Let_def split: prod.splits option.splits sum.splits)

lemma handle_completion_stops_only_on_null_key:
  assumes "handle_completion s os = Some (Inr (r, s'))" and "r"
  shows "completion_key (GetQueuedCompletionStatus os) = None"
proof (rule ccontr)
  assume "completion_key (GetQueuedCompletionStatus os) \<noteq> None"
  then obtain subproc where key: "completion_key (GetQueuedCompletionStatus os) = Some subproc"
    by auto
  with assms(1) obtain p p1 where obj: "objects s subproc = Some p"
    and ready: "OnPipeReady p (pipe_ready os) = Inr p1"
    by (auto simp: handle_completion_def Let_def split: if_splits option.splits sum.splits)
  define s1 where "s1 = s\<lparr>objects := (objects s)(subproc \<mapsto> p1)\<rparr>"
  from assms(1) key obj ready have
    "finish_batch s1 subproc p1 os = Some (Inr (r, s')) \<or> \<not> r"
    by (auto simp: handle_completion_def Let_def s1_def split: if_splits)
  with finish_batch_continues assms(2) show False by blast
qed

lemma DoWork_stops_only_on_null_key:
  assumes "DoWork s os = Some (Inr (r, s'))" and "r"
  shows "completion_key (GetQueuedCompletionStatus os) = None"
proof -
  from assms(1) obtain e s1 where st: "start_pending_batch s os = Inr (e, s1)"
    by (auto simp: DoWork_def split: sum.splits)
  have "e = None"
  proof (cases "procs_to_batch s = []")
    case True
    with st show ?thesis by (simp add: start_pending_batch_def)
  next
    case False
    from start_pending_batch_shape [OF st False] show ?thesis by simp
  qed
  with assms(1) st have "handle_completion s1 os = Some (Inr (r, s'))"
    by (simp add: DoWork_def)
  from handle_completion_stops_only_on_null_key [OF this assms(2)] show ?thesis .
qed

section \<open>The collections of a run\<close>

lemma count_list_distinct_le: "distinct xs \<Longrightarrow> count_list xs h \<le> 1"
  by (induction xs) (auto simp: count_list_0_iff)

lemma count_list_distinct_mem: "distinct xs \<Longrightarrow> h \<in> set xs \<Longrightarrow> count_list xs h = 1"
  by (induction xs) (auto simp: count_list_0_iff)

lemma consistent_initial: "consistent (initial b searchRet userName)"
  by (simp add: consistent_def batch_apart_def tracked_def active_children_def initial_def
      SetBatchMode_def SubprocessSet_new_def pending_handles_def)

lemma active_children_same:
  "batch_process s' = batch_process s \<Longrightarrow> batch_objects s' = batch_objects s \<Longrightarrow>
   active_children s' = active_children s"
  by (simp add: active_children_def split: option.splits)

lemma consistentD:
  assumes "consistent t"
  shows "distinct (tracked (now t))"
    and "\<And>p. p \<in> set (tracked (now t)) \<Longrightarrow> objects (now t) p \<noteq> None"
    and "\<And>p. p \<in> set (handed_out t) \<Longrightarrow> objects (now t) p \<noteq> None"
    and "\<And>p. p \<in> set (retrieved t) \<Longrightarrow> objects (now t) p \<noteq> None"
    and "batch_apart t"
  using assms by (auto simp: consistent_def)

lemma consistentI:
  assumes "distinct (tracked (now t))"
    and "\<And>p. p \<in> set (tracked (now t)) \<Longrightarrow> objects (now t) p \<noteq> None"
    and "\<And>p. p \<in> set (handed_out t) \<Longrightarrow> objects (now t) p \<noteq> None"
    and "\<And>p. p \<in> set (retrieved t) \<Longrightarrow> objects (now t) p \<noteq> None"
    and "batch_apart t"
  shows "consistent t"
  using assms by (auto simp: consistent_def)

lemma fresh_untracked:
  assumes "consistent t" and "objects (now t) a = None"
  shows "a \<notin> set (tracked (now t))" "a \<notin> set (handed_out t)" "a \<notin> set (retrieved t)"
    "batch_process (now t) \<noteq> Some a"
  using consistentD(2-4) [OF assms(1), of a] consistentD(5) [OF assms(1)] assms(2)
  by (auto simp: batch_apart_def)

lemma Add_shape:
  assumes "Add s a os command = Inr (r, s')"
  shows "r = Some a \<and> (\<exists>p. objects s' = (objects s)(a \<mapsto> p))
      \<and> batch_process s' = batch_process s \<and> batch_objects s' = batch_objects s
      \<and> batch_mode s' = batch_mode s
      \<and> ((batch_mode s \<and> running s' = running s \<and> finished s' = finished s
            \<and> pending_handles s' = pending_handles s @ [a])
          \<or> (\<not> batch_mode s \<and> running s' = running s @ [a] \<and> finished s' = finished s
            \<and> pending_handles s' = pending_handles s \<and> procs_to_batch s' = procs_to_batch s)
          \<or> (\<not> batch_mode s \<and> running s' = running s \<and> finished s' = finished s @ [a]
            \<and> pending_handles s' = pending_handles s \<and> procs_to_batch s' = procs_to_batch s))"
proof (cases "batch_mode s")
  case True
  with assms show ?thesis by (auto simp: Add_def pending_handles_def)
next
  case False
  with assms obtain started p where st: "Start Subprocess_new os command = Inr (started, p)"
    by (auto simp: Add_def split: sum.splits)
  note Start_returns_true [OF st]
  with assms False st show ?thesis
    by (auto simp: Add_def pending_handles_def split: if_splits)
qed

lemma Add_consistent:
  assumes c: "consistent t" and fresh: "objects (now t) a = None"
    and add: "Add (now t) a os command = Inr (r, s')"
  shows "consistent (t\<lparr>now := s', handed_out := add_handle r (handed_out t)\<rparr>)"
proof -
  note un = fresh_untracked [OF c fresh]
  note cd = consistentD [OF c]
  note shape = Add_shape [OF add]
  then have r: "r = Some a" and act: "active_children s' = active_children (now t)"
    by (auto intro: active_children_same)
  from shape obtain p where obj: "objects s' = (objects (now t))(a \<mapsto> p)" by blast
  have d': "distinct (tracked s')"
    using shape cd(1) un(1) act by (auto simp: tracked_def)
  have sub: "set (tracked s') \<subseteq> insert a (set (tracked (now t)))"
    using shape act by (auto simp: tracked_def)
  have apart': "batch_apart (t\<lparr>now := s', handed_out := handed_out t @ [a]\<rparr>)"
  proof (cases "batch_process (now t)")
    case None
    with shape show ?thesis by (simp add: batch_apart_def)
  next
    case (Some b)
    with un(4) have "b \<noteq> a" by auto
    with cd(5) Some shape act obj show ?thesis
      by (auto simp: batch_apart_def)
  qed
  show ?thesis
    unfolding r add_handle_def option.case
  proof (rule consistentI)
    show "distinct (tracked (now (t\<lparr>now := s', handed_out := handed_out t @ [a]\<rparr>)))"
      using d' by simp
    show "objects (now (t\<lparr>now := s', handed_out := handed_out t @ [a]\<rparr>)) q \<noteq> None"
      if "q \<in> set (tracked (now (t\<lparr>now := s', handed_out := handed_out t @ [a]\<rparr>)))" for q
      using that sub cd(2) [of q] obj by auto
    show "objects (now (t\<lparr>now := s', handed_out := handed_out t @ [a]\<rparr>)) q \<noteq> None"
      if "q \<in> set (handed_out (t\<lparr>now := s', handed_out := handed_out t @ [a]\<rparr>))" for q
      using that cd(3) [of q] obj by auto
    show "objects (now (t\<lparr>now := s', handed_out := handed_out t @ [a]\<rparr>)) q \<noteq> None"
      if "q \<in> set (retrieved (t\<lparr>now := s', handed_out := handed_out t @ [a]\<rparr>))" for q
      using that cd(4) [of q] obj by auto
    show "batch_apart (t\<lparr>now := s', handed_out := handed_out t @ [a]\<rparr>)"
      using apart' .
  qed
qed

lemma NextFinished_consistent:
  assumes c: "consistent t" and nf: "NextFinished (now t) = (r, s')"
  shows "consistent (t\<lparr>now := s', retrieved := add_handle r (retrieved t)\<rparr>)"
proof (cases "finished (now t)")
  case Nil
  with nf have "s' = now t" "r = None" by (auto simp: NextFinished_def)
  with c show ?thesis by (simp add: add_handle_def)
next
  case (Cons x rest)
  with nf have s': "s' = (now t)\<lparr>finished := rest\<rparr>" and r: "r = Some x"
    by (auto simp: NextFinished_def)
  note cd = consistentD [OF c]
  have act: "active_children s' = active_children (now t)"
    by (rule active_children_same) (simp_all add: s')
  have pend: "pending_handles s' = pending_handles (now t)"
    by (simp add: s' pending_handles_def)
  have d': "distinct (tracked s')"
    using cd(1) Cons act pend by (auto simp: tracked_def s')
  have sub: "set (tracked s') \<subseteq> set (tracked (now t))"
    using Cons act pend by (auto simp: tracked_def s')
  have x: "x \<in> set (tracked (now t))"
    using Cons by (simp add: tracked_def)
  have apart': "batch_apart (t\<lparr>now := s', retrieved := retrieved t @ [x]\<rparr>)"
    using cd(5) Cons act pend by (auto simp: batch_apart_def s' split: option.splits)
  show ?thesis
    unfolding r add_handle_def option.case
  proof (rule consistentI)
    show "distinct (tracked (now (t\<lparr>now := s', retrieved := retrieved t @ [x]\<rparr>)))"
      using d' by simp
    show "objects (now (t\<lparr>now := s', retrieved := retrieved t @ [x]\<rparr>)) q \<noteq> None"
      if "q \<in> set (tracked (now (t\<lparr>now := s', retrieved := retrieved t @ [x]\<rparr>)))" for q
      using that sub cd(2) [of q] by (auto simp: s')
    show "objects (now (t\<lparr>now := s', retrieved := retrieved t @ [x]\<rparr>)) q \<noteq> None"
      if "q \<in> set (handed_out (t\<lparr>now := s', retrieved := retrieved t @ [x]\<rparr>))" for q
      using that cd(3) [of q] by (auto simp: s')
    show "objects (now (t\<lparr>now := s', retrieved := retrieved t @ [x]\<rparr>)) q \<noteq> None"
      if "q \<in> set (retrieved (t\<lparr>now := s', retrieved := retrieved t @ [x]\<rparr>))" for q
      using that cd(4) [of q] cd(2) [OF x] by (auto simp: s')
    show "batch_apart (t\<lparr>now := s', retrieved := retrieved t @ [x]\<rparr>)"
      using apart' .
  qed
qed


lemma start_pending_batch_consistent:
  assumes c: "consistent t"
    and fresh: "procs_to_batch (now t) = [] \<or> objects (now t) (new_BatchSubprocess os) = None"
    and st: "start_pending_batch (now t) os = Inr (r, s')"
  shows "r = None \<and> consistent (t\<lparr>now := s'\<rparr>)"
proof (cases "procs_to_batch (now t) = []")
  case True
  with st have "s' = now t" "r = None" by (auto simp: start_pending_batch_def)
  with c show ?thesis by simp
next
  case False
  define b where "b = new_BatchSubprocess os"
  from False fresh have fr: "objects (now t) b = None" by (simp add: b_def)
  note un = fresh_untracked [OF c fr]
  note cd = consistentD [OF c]
  from start_pending_batch_shape [OF st False] obtain obj members where
    r: "r = None" and bp: "batch_process s' = Some b" and pend: "procs_to_batch s' = []"
    and fin: "finished s' = finished (now t)"
    and run: "running s' = running (now t) \<or> running s' = running (now t) @ [b]"
    and obj: "objects s' = (objects (now t))(b \<mapsto> obj)"
    and mem: "batch_objects s' b = Some members"
    and kids: "children members = map fst (procs_to_batch (now t))"
    unfolding b_def by blast
  have act: "active_children s' = pending_handles (now t)"
    using bp mem kids by (simp add: active_children_def pending_handles_def)
  have pend': "pending_handles s' = []"
    using pend by (simp add: pending_handles_def)
  have d': "distinct (tracked s')"
    using cd(1) un(1) run fin act pend' by (auto simp: tracked_def)
  have sub: "set (tracked s') \<subseteq> insert b (set (tracked (now t)))"
    using run fin act pend' by (auto simp: tracked_def)
  have nb: "b \<notin> set (finished (now t))" "b \<notin> set (pending_handles (now t))"
    using un(1) by (auto simp: tracked_def)
  have apart': "batch_apart (t\<lparr>now := s'\<rparr>)"
    using bp obj mem fin pend' act nb un(2,3) by (simp add: batch_apart_def)
  have "consistent (t\<lparr>now := s'\<rparr>)"
  proof (rule consistentI)
    show "distinct (tracked (now (t\<lparr>now := s'\<rparr>)))"
      using d' by simp
    show "objects (now (t\<lparr>now := s'\<rparr>)) q \<noteq> None"
      if "q \<in> set (tracked (now (t\<lparr>now := s'\<rparr>)))" for q
      using that sub cd(2) [of q] obj by auto
    show "objects (now (t\<lparr>now := s'\<rparr>)) q \<noteq> None"
      if "q \<in> set (handed_out (t\<lparr>now := s'\<rparr>))" for q
      using that cd(3) [of q] obj by auto
    show "objects (now (t\<lparr>now := s'\<rparr>)) q \<noteq> None"
      if "q \<in> set (retrieved (t\<lparr>now := s'\<rparr>))" for q
      using that cd(4) [of q] obj by auto
    show "batch_apart (t\<lparr>now := s'\<rparr>)"
      using apart' .
  qed
  with r show ?thesis by simp
qed

lemma object_update_consistent:
  assumes c: "consistent t" and live: "objects (now t) q \<noteq> None"
  shows "consistent (t\<lparr>now := (now t)\<lparr>objects := (objects (now t))(q \<mapsto> p)\<rparr>\<rparr>)"
proof -
  define s1 where "s1 = (now t)\<lparr>objects := (objects (now t))(q \<mapsto> p)\<rparr>"
  note cd = consistentD [OF c]
  have act: "active_children s1 = active_children (now t)"
    by (rule active_children_same) (simp_all add: s1_def)
  have tr: "tracked s1 = tracked (now t)"
    using act by (simp add: tracked_def s1_def pending_handles_def)
  have apart': "batch_apart (t\<lparr>now := s1\<rparr>)"
    using cd(5) act by (auto simp: batch_apart_def s1_def pending_handles_def split: option.splits)
  have "consistent (t\<lparr>now := s1\<rparr>)"
  proof (rule consistentI)
    show "distinct (tracked (now (t\<lparr>now := s1\<rparr>)))"
      using cd(1) tr by simp
    show "objects (now (t\<lparr>now := s1\<rparr>)) x \<noteq> None"
      if "x \<in> set (tracked (now (t\<lparr>now := s1\<rparr>)))" for x
      using that tr cd(2) [of x] by (auto simp: s1_def)
    show "objects (now (t\<lparr>now := s1\<rparr>)) x \<noteq> None"
      if "x \<in> set (handed_out (t\<lparr>now := s1\<rparr>))" for x
      using that cd(3) [of x] by (auto simp: s1_def)
    show "objects (now (t\<lparr>now := s1\<rparr>)) x \<noteq> None"
      if "x \<in> set (retrieved (t\<lparr>now := s1\<rparr>))" for x
      using that cd(4) [of x] by (auto simp: s1_def)
    show "batch_apart (t\<lparr>now := s1\<rparr>)"
      using apart' .
  qed
  then show ?thesis by (simp add: s1_def)
qed

lemma finish_batch_consistent:
  assumes c: "consistent t" and bp: "batch_process (now t) = Some b"
    and fb: "finish_batch (now t) b p os = Some (Inr (r, s'))"
  shows "consistent (t\<lparr>now := s'\<rparr>)"
proof -
  note cd = consistentD [OF c]
  from cd(5) bp obtain members where mem: "batch_objects (now t) b = Some members"
    and nb: "b \<notin> set (finished (now t))" "b \<notin> set (pending_handles (now t))"
      "b \<notin> set (active_children (now t))" "b \<notin> set (handed_out t)" "b \<notin> set (retrieved t)"
    by (auto simp: batch_apart_def)
  have act: "active_children (now t) = children members"
    using bp mem by (simp add: active_children_def)
  from fb obtain res where parse: "ParseOutput (buf p) {} Map.empty = Some (Inr res)"
    by (auto simp: finish_batch_def Finish_def Let_def split: option.splits sum.splits if_splits)
  have live: "\<forall>c \<in> set (children members). objects (now t) c \<noteq> None"
    using cd(2) act by (auto simp: tracked_def)
  from finish_batch_shape [OF parse mem live, of os] fb
  have fin: "finished s' = finished (now t) @ children members"
    and run: "running s' = removeAll b (running (now t))"
    and pend: "procs_to_batch s' = procs_to_batch (now t)"
    and bp': "batch_process s' = None"
    and gone: "objects s' b = None"
    and keep0: "\<forall>q. q \<noteq> b \<longrightarrow> (objects s' q = None) = (objects (now t) q = None)"
    by auto
  have keep: "objects s' q \<noteq> None" if "q \<noteq> b" "objects (now t) q \<noteq> None" for q
    using that keep0 by simp
  have act': "active_children s' = []"
    using bp' by (simp add: active_children_def)
  have pend': "pending_handles s' = pending_handles (now t)"
    using pend by (simp add: pending_handles_def)
  have d': "distinct (tracked s')"
    using cd(1) fin run pend' act act' by (auto simp: tracked_def distinct_removeAll)
  have sub: "set (tracked s') \<subseteq> set (tracked (now t)) - {b}"
    using fin run pend' act act' nb by (auto simp: tracked_def)
  show ?thesis
  proof (rule consistentI)
    show "distinct (tracked (now (t\<lparr>now := s'\<rparr>)))"
      using d' by simp
    show "objects (now (t\<lparr>now := s'\<rparr>)) q \<noteq> None"
      if "q \<in> set (tracked (now (t\<lparr>now := s'\<rparr>)))" for q
    proof -
      from that sub have "q \<in> set (tracked (now t))" "q \<noteq> b" by auto
      with cd(2) [of q] keep [of q] show ?thesis by simp
    qed
    show "objects (now (t\<lparr>now := s'\<rparr>)) q \<noteq> None"
      if "q \<in> set (handed_out (t\<lparr>now := s'\<rparr>))" for q
    proof -
      from that nb have "q \<in> set (handed_out t)" "q \<noteq> b" by auto
      with cd(3) [of q] keep [of q] show ?thesis by simp
    qed
    show "objects (now (t\<lparr>now := s'\<rparr>)) q \<noteq> None"
      if "q \<in> set (retrieved (t\<lparr>now := s'\<rparr>))" for q
    proof -
      from that nb have "q \<in> set (retrieved t)" "q \<noteq> b" by auto
      with cd(4) [of q] keep [of q] show ?thesis by simp
    qed
    show "batch_apart (t\<lparr>now := s'\<rparr>)"
      using bp' by (simp add: batch_apart_def)
  qed
qed


lemma move_to_finished_consistent:
  assumes c: "consistent t" and inr: "q \<in> set (running (now t))"
    and nb: "batch_process (now t) \<noteq> Some q"
  shows "consistent (t\<lparr>now := (now t)\<lparr>finished := finished (now t) @ [q],
      running := removeAll q (running (now t))\<rparr>\<rparr>)"
proof -
  define s1 where "s1 = (now t)\<lparr>finished := finished (now t) @ [q],
      running := removeAll q (running (now t))\<rparr>"
  note cd = consistentD [OF c]
  have act: "active_children s1 = active_children (now t)"
    by (rule active_children_same) (simp_all add: s1_def)
  have pend: "pending_handles s1 = pending_handles (now t)"
    by (simp add: s1_def pending_handles_def)
  have d': "distinct (tracked s1)"
    using cd(1) inr act pend by (auto simp: tracked_def s1_def distinct_removeAll)
  have sub: "set (tracked s1) \<subseteq> set (tracked (now t))"
    using inr act pend by (auto simp: tracked_def s1_def)
  have apart': "batch_apart (t\<lparr>now := s1\<rparr>)"
    using cd(5) nb act pend by (auto simp: batch_apart_def s1_def split: option.splits)
  have "consistent (t\<lparr>now := s1\<rparr>)"
  proof (rule consistentI)
    show "distinct (tracked (now (t\<lparr>now := s1\<rparr>)))"
      using d' by simp
    show "objects (now (t\<lparr>now := s1\<rparr>)) x \<noteq> None"
      if "x \<in> set (tracked (now (t\<lparr>now := s1\<rparr>)))" for x
      using that sub cd(2) [of x] by (auto simp: s1_def)
    show "objects (now (t\<lparr>now := s1\<rparr>)) x \<noteq> None"
      if "x \<in> set (handed_out (t\<lparr>now := s1\<rparr>))" for x
      using that cd(3) [of x] by (auto simp: s1_def)
    show "objects (now (t\<lparr>now := s1\<rparr>)) x \<noteq> None"
      if "x \<in> set (retrieved (t\<lparr>now := s1\<rparr>))" for x
      using that cd(4) [of x] by (auto simp: s1_def)
    show "batch_apart (t\<lparr>now := s1\<rparr>)"
      using apart' .
  qed
  then show ?thesis by (simp add: s1_def)
qed

lemma handle_completion_consistent:
  assumes c: "consistent t" and hc: "handle_completion (now t) os = Some (Inr (r, s'))"
  shows "consistent (t\<lparr>now := s'\<rparr>)"
proof (cases "completion_key (GetQueuedCompletionStatus os)")
  case None
  with hc have "s' = now t"
    by (auto simp: handle_completion_def Let_def split: if_splits)
  with c show ?thesis by simp
next
  case (Some subproc)
  with hc obtain p p1 where obj: "objects (now t) subproc = Some p"
    and ready: "OnPipeReady p (pipe_ready os) = Inr p1"
    by (auto simp: handle_completion_def Let_def split: if_splits option.splits sum.splits)
  define s1 where "s1 = (now t)\<lparr>objects := (objects (now t))(subproc \<mapsto> p1)\<rparr>"
  define t1 where "t1 = t\<lparr>now := s1\<rparr>"
  have c1: "consistent t1"
    using object_update_consistent [OF c, of subproc p1] obj by (simp add: t1_def s1_def)
  have now1: "now t1 = s1" by (simp add: t1_def)
  have t1': "t1\<lparr>now := x\<rparr> = t\<lparr>now := x\<rparr>" for x by (simp add: t1_def)
  from hc Some obj ready have rest:
    "(if Done p1 then
        (if batch_process s1 = Some subproc then finish_batch s1 subproc p1 os
         else if subproc \<in> set (running s1)
         then Some (Inr (False, s1\<lparr>finished := finished s1 @ [subproc],
                running := removeAll subproc (running s1)\<rparr>))
         else Some (Inr (False, s1)))
      else Some (Inr (False, s1))) = Some (Inr (r, s'))"
    by (auto simp: handle_completion_def Let_def s1_def split: if_splits)
  show ?thesis
  proof (cases "Done p1")
    case False
    with rest have "s' = s1" by simp
    with c1 show ?thesis by (simp add: t1_def)
  next
    case True
    show ?thesis
    proof (cases "batch_process s1 = Some subproc")
      case batch: True
      with rest True have "finish_batch (now t1) subproc p1 os = Some (Inr (r, s'))"
        by (simp add: now1)
      from finish_batch_consistent [OF c1 _ this] batch show ?thesis
        by (simp add: now1 t1')
    next
      case other: False
      show ?thesis
      proof (cases "subproc \<in> set (running s1)")
        case False
        with rest True other have "s' = s1" by simp
        with c1 show ?thesis by (simp add: t1_def)
      next
        case inr: True
        with rest True other have s': "s' = s1\<lparr>finished := finished s1 @ [subproc],
                running := removeAll subproc (running s1)\<rparr>" by simp
        from move_to_finished_consistent [OF c1, of subproc] inr other
        show ?thesis by (simp add: now1 t1' s')
      qed
    qed
  qed
qed

lemma DoWork_consistent:
  assumes c: "consistent t"
    and fresh: "procs_to_batch (now t) = [] \<or> objects (now t) (new_BatchSubprocess os) = None"
    and dw: "DoWork (now t) os = Some (Inr (r, s'))"
  shows "consistent (t\<lparr>now := s'\<rparr>)"
proof -
  from dw obtain e s1 where st: "start_pending_batch (now t) os = Inr (e, s1)"
    by (auto simp: DoWork_def split: sum.splits)
  from start_pending_batch_consistent [OF c fresh st]
  have e: "e = None" and c1: "consistent (t\<lparr>now := s1\<rparr>)" by auto
  from dw st e have "handle_completion (now (t\<lparr>now := s1\<rparr>)) os = Some (Inr (r, s'))"
    by (simp add: DoWork_def)
  from handle_completion_consistent [OF c1 this] show ?thesis by simp
qed

lemma step_consistent:
  assumes "consistent t" and "step t c = Some (Inr t')"
  shows "consistent t'"
proof (cases c)
  case (CallAdd a os command)
  with assms(2) obtain r s' where "objects (now t) a = None" "Add (now t) a os command = Inr (r, s')"
    "t' = t\<lparr>now := s', handed_out := add_handle r (handed_out t)\<rparr>"
    by (auto split: if_splits sum.splits)
  with Add_consistent [OF assms(1)] show ?thesis by simp
next
  case (CallDoWork os)
  with assms(2) obtain r s' where
    "procs_to_batch (now t) = [] \<or> objects (now t) (new_BatchSubprocess os) = None"
    "DoWork (now t) os = Some (Inr (r, s'))" "t' = t\<lparr>now := s'\<rparr>"
    by (auto split: if_splits option.splits sum.splits)
  with DoWork_consistent [OF assms(1)] show ?thesis by simp
next
  case CallNextFinished
  with assms(2) obtain r s' where "NextFinished (now t) = (r, s')"
    "t' = t\<lparr>now := s', retrieved := add_handle r (retrieved t)\<rparr>"
    by (auto split: prod.splits)
  with NextFinished_consistent [OF assms(1)] show ?thesis by simp
qed

lemma run_consistent:
  "consistent t \<Longrightarrow> run t calls = Some (Inr t') \<Longrightarrow> consistent t'"
proof (induction calls arbitrary: t)
  case Nil
  then show ?case by simp
next
  case (Cons c calls)
  from Cons.prems(2) obtain t1 where st: "step t c = Some (Inr t1)" and rest: "run t1 calls = Some (Inr t')"
    by (auto split: option.splits sum.splits)
  from Cons.IH [OF step_consistent [OF Cons.prems(1) st] rest] show ?case .
qed

lemma initial_fields:
  "procs_to_batch (now (initial b searchRet userName)) = []"
  "batch_process (now (initial b searchRet userName)) = None"
  "running (now (initial b searchRet userName)) = []"
  "finished (now (initial b searchRet userName)) = []"
  "handed_out (initial b searchRet userName) = []"
  "retrieved (initial b searchRet userName) = []"
  by (simp_all add: initial_def SetBatchMode_def SubprocessSet_new_def)

lemma accounted_initial: "accounted (initial b searchRet userName)"
  by (simp add: accounted_def tracked_def pending_handles_def active_children_def
      active_batch_def initial_fields)

lemma active_batch_same: "batch_process s' = batch_process s \<Longrightarrow> active_batch s' = active_batch s"
  by (simp add: active_batch_def)

lemma Add_accounted:
  assumes c: "consistent t" and acc: "accounted t" and fresh: "objects (now t) a = None"
    and add: "Add (now t) a os command = Inr (r, s')"
  shows "accounted (t\<lparr>now := s', handed_out := add_handle r (handed_out t)\<rparr>)"
proof -
  note un = fresh_untracked [OF c fresh]
  note shape = Add_shape [OF add]
  then have r: "r = Some a" and act: "active_children s' = active_children (now t)"
    by (auto intro: active_children_same)
  from shape have ab: "active_batch s' = active_batch (now t)"
    by (intro active_batch_same) simp
  have tr: "set (tracked s') = insert a (set (tracked (now t)))"
    using shape act by (auto simp: tracked_def)
  have na: "a \<notin> active_batch (now t)"
    using un(4) by (auto simp: active_batch_def split: option.splits)
  have "set (handed_out t @ [a]) - set (retrieved t) = insert a (set (handed_out t) - set (retrieved t))"
    using un(3) by auto
  also have "\<dots> = insert a (set (tracked (now t)) - active_batch (now t))"
    using acc by (simp add: accounted_def)
  also have "\<dots> = set (tracked s') - active_batch s'"
    using tr ab na by auto
  finally show ?thesis
    by (simp add: accounted_def r add_handle_def)
qed

lemma NextFinished_accounted:
  assumes c: "consistent t" and acc: "accounted t" and nf: "NextFinished (now t) = (r, s')"
  shows "accounted (t\<lparr>now := s', retrieved := add_handle r (retrieved t)\<rparr>)"
proof (cases "finished (now t)")
  case Nil
  with nf have "s' = now t" "r = None" by (auto simp: NextFinished_def)
  with acc show ?thesis by (simp add: add_handle_def accounted_def)
next
  case (Cons x rest)
  with nf have s': "s' = (now t)\<lparr>finished := rest\<rparr>" and r: "r = Some x"
    by (auto simp: NextFinished_def)
  note cd = consistentD [OF c]
  have act: "active_children s' = active_children (now t)"
    by (rule active_children_same) (simp_all add: s')
  have ab: "active_batch s' = active_batch (now t)"
    by (rule active_batch_same) (simp add: s')
  have pend: "pending_handles s' = pending_handles (now t)"
    by (simp add: s' pending_handles_def)
  have tr: "set (tracked s') = set (tracked (now t)) - {x}"
    using cd(1) Cons act pend by (auto simp: tracked_def s')
  have nx: "x \<notin> active_batch (now t)"
    using cd(5) Cons by (auto simp: batch_apart_def active_batch_def split: option.splits)
  have "set (handed_out t) - set (retrieved t @ [x]) = (set (handed_out t) - set (retrieved t)) - {x}"
    by auto
  also have "\<dots> = (set (tracked (now t)) - active_batch (now t)) - {x}"
    using acc by (simp add: accounted_def)
  also have "\<dots> = set (tracked s') - active_batch s'"
    using tr ab by auto
  finally show ?thesis
    by (simp add: accounted_def r add_handle_def)
qed

lemma start_pending_batch_accounted:
  assumes c: "consistent t" and acc: "accounted t"
    and fresh: "procs_to_batch (now t) = [] \<or> objects (now t) (new_BatchSubprocess os) = None"
    and single: "procs_to_batch (now t) = [] \<or> batch_process (now t) = None"
    and st: "start_pending_batch (now t) os = Inr (r, s')"
  shows "accounted (t\<lparr>now := s'\<rparr>)"
proof (cases "procs_to_batch (now t) = []")
  case True
  with st have "s' = now t" by (auto simp: start_pending_batch_def)
  with acc show ?thesis by simp
next
  case False
  define b where "b = new_BatchSubprocess os"
  from False fresh have fr: "objects (now t) b = None" by (simp add: b_def)
  from False single have none: "batch_process (now t) = None" by simp
  note un = fresh_untracked [OF c fr]
  from start_pending_batch_shape [OF st False] obtain members where
    bp: "batch_process s' = Some b" and pend: "procs_to_batch s' = []"
    and fin: "finished s' = finished (now t)"
    and run: "running s' = running (now t) \<or> running s' = running (now t) @ [b]"
    and mem: "batch_objects s' b = Some members"
    and kids: "children members = map fst (procs_to_batch (now t))"
    unfolding b_def by blast
  have act: "active_children s' = pending_handles (now t)"
    using bp mem kids by (simp add: active_children_def pending_handles_def)
  have pend': "pending_handles s' = []"
    using pend by (simp add: pending_handles_def)
  have old: "active_children (now t) = []" "active_batch (now t) = {}"
    using none by (simp_all add: active_children_def active_batch_def)
  have ab: "active_batch s' = {b}"
    using bp by (simp add: active_batch_def)
  have "set (tracked s') - {b} = set (tracked (now t))"
    using run fin act pend' old un(1) by (auto simp: tracked_def)
  with acc old ab show ?thesis
    by (simp add: accounted_def)
qed


lemma finish_batch_accounted:
  assumes c: "consistent t" and acc: "accounted t" and bp: "batch_process (now t) = Some b"
    and fb: "finish_batch (now t) b p os = Some (Inr (r, s'))"
  shows "accounted (t\<lparr>now := s'\<rparr>)"
proof -
  note cd = consistentD [OF c]
  from cd(5) bp obtain members where mem: "batch_objects (now t) b = Some members"
    and nb: "b \<notin> set (finished (now t))" "b \<notin> set (pending_handles (now t))"
      "b \<notin> set (active_children (now t))"
    by (auto simp: batch_apart_def)
  have act: "active_children (now t) = children members"
    using bp mem by (simp add: active_children_def)
  from fb obtain res where parse: "ParseOutput (buf p) {} Map.empty = Some (Inr res)"
    by (auto simp: finish_batch_def Finish_def Let_def split: option.splits sum.splits if_splits)
  have live: "\<forall>c \<in> set (children members). objects (now t) c \<noteq> None"
    using cd(2) act by (auto simp: tracked_def)
  from finish_batch_shape [OF parse mem live, of os] fb
  have fin: "finished s' = finished (now t) @ children members"
    and run: "running s' = removeAll b (running (now t))"
    and pend: "procs_to_batch s' = procs_to_batch (now t)"
    and bp': "batch_process s' = None"
    by auto
  have act': "active_children s' = []" and ab': "active_batch s' = {}"
    using bp' by (simp_all add: active_children_def active_batch_def)
  have ab: "active_batch (now t) = {b}"
    using bp by (simp add: active_batch_def)
  have pend': "pending_handles s' = pending_handles (now t)"
    using pend by (simp add: pending_handles_def)
  have "set (tracked s') = set (tracked (now t)) - {b}"
    using fin run pend' act act' nb by (auto simp: tracked_def)
  with acc ab ab' show ?thesis
    by (simp add: accounted_def)
qed

lemma handle_completion_accounted:
  assumes c: "consistent t" and acc: "accounted t"
    and hc: "handle_completion (now t) os = Some (Inr (r, s'))"
  shows "accounted (t\<lparr>now := s'\<rparr>)"
proof (cases "completion_key (GetQueuedCompletionStatus os)")
  case None
  with hc have "s' = now t"
    by (auto simp: handle_completion_def Let_def split: if_splits)
  with acc show ?thesis by simp
next
  case (Some subproc)
  with hc obtain p p1 where obj: "objects (now t) subproc = Some p"
    and ready: "OnPipeReady p (pipe_ready os) = Inr p1"
    by (auto simp: handle_completion_def Let_def split: if_splits option.splits sum.splits)
  define s1 where "s1 = (now t)\<lparr>objects := (objects (now t))(subproc \<mapsto> p1)\<rparr>"
  define t1 where "t1 = t\<lparr>now := s1\<rparr>"
  have c1: "consistent t1"
    using object_update_consistent [OF c, of subproc p1] obj by (simp add: t1_def s1_def)
  have now1: "now t1 = s1" by (simp add: t1_def)
  have t1': "t1\<lparr>now := x\<rparr> = t\<lparr>now := x\<rparr>" for x by (simp add: t1_def)
  have act1: "active_children s1 = active_children (now t)"
    by (rule active_children_same) (simp_all add: s1_def)
  have tr1: "tracked s1 = tracked (now t)"
    using act1 by (simp add: tracked_def s1_def pending_handles_def)
  have ab1: "active_batch s1 = active_batch (now t)"
    by (rule active_batch_same) (simp add: s1_def)
  have acc1: "accounted t1"
    using acc tr1 ab1 by (simp add: accounted_def t1_def)
  from hc Some obj ready have rest:
    "(if Done p1 then
        (if batch_process s1 = Some subproc then finish_batch s1 subproc p1 os
         else if subproc \<in> set (running s1)
         then Some (Inr (False, s1\<lparr>finished := finished s1 @ [subproc],
                running := removeAll subproc (running s1)\<rparr>))
         else Some (Inr (False, s1)))
      else Some (Inr (False, s1))) = Some (Inr (r, s'))"
    by (auto simp: handle_completion_def Let_def s1_def split: if_splits)
  show ?thesis
  proof (cases "Done p1 \<and> batch_process s1 = Some subproc")
    case True
    with rest have "finish_batch (now t1) subproc p1 os = Some (Inr (r, s'))"
      by (simp add: now1)
    from finish_batch_accounted [OF c1 acc1 _ this] True show ?thesis
      by (simp add: now1 t1')
  next
    case False
    with rest have "s' = s1 \<or> (subproc \<in> set (running s1) \<and>
        s' = s1\<lparr>finished := finished s1 @ [subproc], running := removeAll subproc (running s1)\<rparr>)"
      by (auto split: if_splits)
    then show ?thesis
    proof
      assume "s' = s1"
      with acc1 show ?thesis by (simp add: t1_def)
    next
      assume moved: "subproc \<in> set (running s1) \<and>
        s' = s1\<lparr>finished := finished s1 @ [subproc], running := removeAll subproc (running s1)\<rparr>"
      then have act': "active_children s' = active_children s1"
        by (intro active_children_same) simp_all
      from moved have ab': "active_batch s' = active_batch s1"
        by (intro active_batch_same) simp
      have "set (tracked s') = set (tracked s1)"
        using moved act' by (auto simp: tracked_def pending_handles_def)
      with acc1 ab' show ?thesis
        by (simp add: accounted_def t1_def)
    qed
  qed
qed

lemma step_accounted:
  assumes c: "consistent t" and acc: "accounted t" and st: "step t call = Some (Inr t')"
    and single: "\<not> starts_second_batch t call"
  shows "accounted t'"
proof (cases call)
  case (CallAdd a os command)
  with st obtain r s' where "objects (now t) a = None" "Add (now t) a os command = Inr (r, s')"
    "t' = t\<lparr>now := s', handed_out := add_handle r (handed_out t)\<rparr>"
    by (auto split: if_splits sum.splits)
  with Add_accounted [OF c acc] show ?thesis by simp
next
  case (CallDoWork os)
  with st obtain r s' where
    fresh: "procs_to_batch (now t) = [] \<or> objects (now t) (new_BatchSubprocess os) = None"
    and dw: "DoWork (now t) os = Some (Inr (r, s'))" and t': "t' = t\<lparr>now := s'\<rparr>"
    by (auto split: if_splits option.splits sum.splits)
  from single CallDoWork have one: "procs_to_batch (now t) = [] \<or> batch_process (now t) = None"
    by (auto simp: starts_second_batch_def)
  from dw obtain e s1 where sp: "start_pending_batch (now t) os = Inr (e, s1)"
    by (auto simp: DoWork_def split: sum.splits)
  from start_pending_batch_consistent [OF c fresh sp]
  have e: "e = None" and c1: "consistent (t\<lparr>now := s1\<rparr>)" by auto
  note acc1 = start_pending_batch_accounted [OF c acc fresh one sp]
  from dw sp e have "handle_completion (now (t\<lparr>now := s1\<rparr>)) os = Some (Inr (r, s'))"
    by (simp add: DoWork_def)
  from handle_completion_accounted [OF c1 acc1 this] show ?thesis
    by (simp add: t')
next
  case CallNextFinished
  with st obtain r s' where "NextFinished (now t) = (r, s')"
    "t' = t\<lparr>now := s', retrieved := add_handle r (retrieved t)\<rparr>"
    by (auto split: prod.splits)
  with NextFinished_accounted [OF c acc] show ?thesis by simp
qed

lemma run_accounted:
  "consistent t \<Longrightarrow> accounted t \<Longrightarrow> single_batch t calls \<Longrightarrow>
   run t calls = Some (Inr t') \<Longrightarrow> accounted t'"
proof (induction calls arbitrary: t)
  case Nil
  then show ?case by simp
next
  case (Cons c calls)
  from Cons.prems(4) obtain t1 where st: "step t c = Some (Inr t1)"
    and rest: "run t1 calls = Some (Inr t')"
    by (auto split: option.splits sum.splits)
  from Cons.prems(3) st have one: "\<not> starts_second_batch t c" and later: "single_batch t1 calls"
    by simp_all
  from Cons.IH [OF step_consistent [OF Cons.prems(1) st]
      step_accounted [OF Cons.prems(1,2) st one] later rest]
  show ?case .
qed

text \<open>
  A batch started while an earlier batch is still the active one takes its place in
  \<^verbatim>\<open>batch_process_\<close>. The earlier batch, once done, is moved to the finished queue like
  a plain process, and its child, handle 1 here, is in no collection and is recorded in
  no batch that \<^verbatim>\<open>DoWork\<close> will look at.
\<close>

lemma second_batch_loses_children:
  "handed_out_after (run (initial True 1 None)
      [CallAdd 1 started_os ''cl.exe /c a.c'', CallDoWork batch_started_os,
       CallAdd 3 started_os ''cl.exe /c b.c'', CallDoWork batch_done_os]) = Some [1, 3]
   \<and> retrieved_after (run (initial True 1 None)
      [CallAdd 1 started_os ''cl.exe /c a.c'', CallDoWork batch_started_os,
       CallAdd 3 started_os ''cl.exe /c b.c'', CallDoWork batch_done_os]) = Some []
   \<and> running_after (run (initial True 1 None)
      [CallAdd 1 started_os ''cl.exe /c a.c'', CallDoWork batch_started_os,
       CallAdd 3 started_os ''cl.exe /c b.c'', CallDoWork batch_done_os]) = Some [5]
   \<and> finished_after (run (initial True 1 None)
      [CallAdd 1 started_os ''cl.exe /c a.c'', CallDoWork batch_started_os,
       CallAdd 3 started_os ''cl.exe /c b.c'', CallDoWork batch_done_os]) = Some [2]
   \<and> occurrences_after (run (initial True 1 None)
      [CallAdd 1 started_os ''cl.exe /c a.c'', CallDoWork batch_started_os,
       CallAdd 3 started_os ''cl.exe /c b.c'', CallDoWork batch_done_os]) 1 = Some 0
   \<and> occurrences_after (run (initial True 1 None)
      [CallAdd 1 started_os ''cl.exe /c a.c'', CallDoWork batch_started_os,
       CallAdd 3 started_os ''cl.exe /c b.c'', CallDoWork batch_done_os]) 3 = Some 1"
  by code_simp

text \<open>
  Claim C8, as stated, fails: \<^verbatim>\<open>Add\<close> hands out a handle, \<^verbatim>\<open>NextFinished\<close> returns
  it, and the handle is then in none of the collections.
\<close>

theorem handle_in_no_collection_counterexample:
  "handed_out_after (run (initial False 0 None)
      [CallAdd 1 not_found_os ''nosuch.exe'', CallNextFinished]) = Some [1]
   \<and> occurrences_after (run (initial False 0 None)
      [CallAdd 1 not_found_os ''nosuch.exe'', CallNextFinished]) 1 = Some 0"
  by code_simp

text \<open>
  Claim C8, amended. After any sequence of calls of \<^verbatim>\<open>Add\<close>, \<^verbatim>\<open>DoWork\<close> and
  \<^verbatim>\<open>NextFinished\<close> on a new set, no handle occurs more than once in the running
  collection, the finished queue, the pending list and the children recorded in the
  active batch, taken together. If no \<^verbatim>\<open>DoWork\<close> of the sequence started a batch while
  an earlier batch was still the active one, every handle that \<^verbatim>\<open>Add\<close> has handed out
  and \<^verbatim>\<open>NextFinished\<close> has not yet returned occurs there exactly once.
\<close>

theorem handles_tracked_once:
  assumes "run (initial b searchRet userName) calls = Some (Inr t)"
  shows "occurrences (now t) h \<le> 1
    \<and> (single_batch (initial b searchRet userName) calls \<and> h \<in> set (handed_out t)
         \<and> h \<notin> set (retrieved t) \<longrightarrow> occurrences (now t) h = 1)"
proof -
  have c: "consistent t"
    using run_consistent [OF consistent_initial assms] .
  then have d: "distinct (tracked (now t))"
    by (rule consistentD)
  have one: "occurrences (now t) h = 1"
    if single: "single_batch (initial b searchRet userName) calls"
      and h: "h \<in> set (handed_out t)" "h \<notin> set (retrieved t)"
  proof -
    from run_accounted [OF consistent_initial accounted_initial single assms]
    have "accounted t" .
    with h have "h \<in> set (tracked (now t))"
      by (auto simp: accounted_def)
    with d show ?thesis
      by (simp add: occurrences_def count_list_distinct_mem)
  qed
  have "occurrences (now t) h \<le> 1"
    using count_list_distinct_le [OF d, of h] by (simp add: occurrences_def)
  with one show ?thesis by blast
qed

lemma run_example:
  "\<exists>t. run (initial True 1 None)
        [CallAdd 1 started_os ''cl.exe /c a.c'', CallAdd 3 started_os ''cl.exe /c b.c'',
         CallDoWork batch_started_os, CallAdd 4 started_os ''cl.exe /c c.c'']
      = Some (Inr t)
    \<and> handed_out t = [1, 3, 4] \<and> retrieved t = [] \<and> running (now t) = [2]
    \<and> finished (now t) = [] \<and> pending_handles (now t) = [4] \<and> active_children (now t) = [1, 3]"
proof -
  let ?res = "run (initial True 1 None)
        [CallAdd 1 started_os ''cl.exe /c a.c'', CallAdd 3 started_os ''cl.exe /c b.c'',
         CallDoWork batch_started_os, CallAdd 4 started_os ''cl.exe /c c.c'']"
  have a: "handed_out_after ?res = Some [1, 3, 4]" by code_simp
  have b: "retrieved_after ?res = Some []" by code_simp
  have c: "running_after ?res = Some [2]" by code_simp
  have d: "finished_after ?res = Some []" by code_simp
  have e: "pending_after ?res = Some [4]" by code_simp
  have f: "map_option (\<lambda>t. active_children (now t)) (state_after ?res) = Some [1, 3]" by code_simp
  from a obtain t where t: "?res = Some (Inr t)"
    by (auto simp: handed_out_after_def state_after_def split: option.splits sum.splits)
  with a b c d e f show ?thesis
    by (simp add: handed_out_after_def retrieved_after_def running_after_def finished_after_def
        pending_after_def state_after_def)
qed

theorem handles_tracked_once_witness:
  "\<exists>t. run (initial True 1 None)
        [CallAdd 1 started_os ''cl.exe /c a.c'', CallAdd 3 started_os ''cl.exe /c b.c'',
         CallDoWork batch_started_os, CallAdd 4 started_os ''cl.exe /c c.c'']
      = Some (Inr t)
    \<and> single_batch (initial True 1 None)
        [CallAdd 1 started_os ''cl.exe /c a.c'', CallAdd 3 started_os ''cl.exe /c b.c'',
         CallDoWork batch_started_os, CallAdd 4 started_os ''cl.exe /c c.c'']
    \<and> 3 \<in> set (handed_out t) \<and> 3 \<notin> set (retrieved t)
    \<and> occurrences (now t) 3 \<le> 1 \<and> occurrences (now t) 3 = 1
    \<and> 3 \<in> set (active_children (now t))"
proof -
  from run_example obtain t where
    t: "run (initial True 1 None)
        [CallAdd 1 started_os ''cl.exe /c a.c'', CallAdd 3 started_os ''cl.exe /c b.c'',
         CallDoWork batch_started_os, CallAdd 4 started_os ''cl.exe /c c.c'']
      = Some (Inr t)"
    and obs: "handed_out t = [1, 3, 4]" "retrieved t = []" "active_children (now t) = [1, 3]"
    by blast
  have single: "single_batch (initial True 1 None)
        [CallAdd 1 started_os ''cl.exe /c a.c'', CallAdd 3 started_os ''cl.exe /c b.c'',
         CallDoWork batch_started_os, CallAdd 4 started_os ''cl.exe /c c.c'']"
    by code_simp
  from handles_tracked_once [OF t, of 3] single obs t show ?thesis
    by auto
qed

end
